theory Spec2Isabelle
  imports Complex_Main "HOL-Library.Word" "HOL-Library.Signed_Division"
begin

unbundle bit_operations_syntax

section \<open>Driver for the bq76pl536 battery monitor: constants\<close>

text \<open>
  The embedding follows \<^verbatim>\<open>bq76pl536.c\<close> and \<^verbatim>\<open>bq76pl536.h\<close>. Bytes (\<^verbatim>\<open>u8\<close>) are
  8-bit words; C \<^verbatim>\<open>int\<close> values are modelled as \<^typ>\<open>int\<close>, with the conversions to
  \<^verbatim>\<open>u8\<close> (\<^term>\<open>word_of_int\<close>, reduction modulo 256) written where the C code stores an
  \<^verbatim>\<open>int\<close> into a byte.
\<close>

type_synonym u8 = "8 word"

definition SPI_BUFF_SIZE :: nat where "SPI_BUFF_SIZE = 50"
definition USER_BUFF_SIZE :: nat where "USER_BUFF_SIZE = 128"
definition MAX_XFER :: int where "MAX_XFER = 10"
definition CELL_MISSING_THRESHOLD :: int where "CELL_MISSING_THRESHOLD = 1000"
definition EFAULT :: int where "EFAULT = 14"
definition ENOMEM :: int where "ENOMEM = 12"

text \<open>Special addresses and registers of \<^verbatim>\<open>bq76pl536.h\<close>.\<close>

definition DISCOVERY_ADDRESS :: u8 where "DISCOVERY_ADDRESS = 0x00"
definition BROADCAST :: u8 where "BROADCAST = 0x3F"
definition RESET_COMMAND :: u8 where "RESET_COMMAND = 0xA5"
definition DEVICE_STATUS :: u8 where "DEVICE_STATUS = 0x00"
definition DRDY :: int where "DRDY = 0x01"
definition VCELL1 :: int where "VCELL1 = 0x03"
definition VCELL6 :: int where "VCELL6 = 0x0D"
definition TEMPERATURE1 :: u8 where "TEMPERATURE1 = 0x0F"
definition TEMPERATURE2 :: u8 where "TEMPERATURE2 = 0x11"
definition ALERT_STATUS :: u8 where "ALERT_STATUS = 0x20"
definition FAULT_STATUS :: u8 where "FAULT_STATUS = 0x21"
definition COV_FAULT :: u8 where "COV_FAULT = 0x22"
definition CUV_FAULT :: u8 where "CUV_FAULT = 0x23"
definition ADC_CONVERT :: u8 where "ADC_CONVERT = 0x34"
definition AC_CONV :: u8 where "AC_CONV = 0x01"
definition ADDRESS_CONTROL :: u8 where "ADDRESS_CONTROL = 0x3b"
definition AC_ADDR_RQST :: u8 where "AC_ADDR_RQST = 0x80"
definition RESET :: u8 where "RESET = 0x3c"

text \<open>
  \<^verbatim>\<open>search_pack\<close> writes to \<^verbatim>\<open>DISCOVERY_ADDR\<close>, a name the header does not define; the
  header's discovery address is \<^verbatim>\<open>DISCOVERY_ADDRESS\<close> (0x00), which is the value taken here.
\<close>

definition DISCOVERY_ADDR :: u8 where "DISCOVERY_ADDR = DISCOVERY_ADDRESS"

section \<open>CRC-8 of the kernel library\<close>

text \<open>
  \<^verbatim>\<open>crc8_populate_msb\<close> and \<^verbatim>\<open>crc8\<close> come from the kernel's \<^verbatim>\<open>lib/crc8.c\<close>. The table is
  filled in rounds \<^verbatim>\<open>i = 1, 2, 4, ..., 128\<close>; in each round \<^verbatim>\<open>t\<close> is shifted (and reduced by
  the polynomial when its top bit was set) and entries \<^verbatim>\<open>i .. 2i-1\<close> become the entries
  \<^verbatim>\<open>0 .. i-1\<close> xor \<^verbatim>\<open>t\<close>. The list holds the entries filled so far, so \<^verbatim>\<open>i\<close> is its length.
\<close>

definition crc8_populate_round :: "u8 \<Rightarrow> u8 \<times> u8 list \<Rightarrow> u8 \<times> u8 list" where
  "crc8_populate_round polynomial = (\<lambda>(t, table).
     let t' = push_bit 1 t XOR (if t AND 0x80 \<noteq> 0 then polynomial else 0)
     in (t', table @ map (\<lambda>x. x XOR t') table))"

definition crc8_populate_msb :: "u8 \<Rightarrow> u8 list" where
  "crc8_populate_msb polynomial = snd ((crc8_populate_round polynomial ^^ 8) (0x80, [0]))"

definition crc8 :: "u8 list \<Rightarrow> u8 list \<Rightarrow> u8 \<Rightarrow> u8" where
  "crc8 table pdata crc = fold (\<lambda>b c. table ! unat (c XOR b)) pdata crc"

text \<open>\<^verbatim>\<open>bq_probe\<close> fills the driver's table with polynomial 7, that is x^8 + x^2 + x + 1.\<close>

definition crc8_table :: "u8 list" where
  "crc8_table = crc8_populate_msb 7"

section \<open>Driver state\<close>

text \<open>
  \<^verbatim>\<open>struct spi_transfer\<close>, as far as the driver fills it. \<^verbatim>\<open>tx_buf\<close> and \<^verbatim>\<open>rx_buf\<close> point into
  the driver's \<^verbatim>\<open>tx_buff\<close> and \<^verbatim>\<open>rx_buff\<close>; a pointer is kept as the offset it points to, and
  the null pointer is \<^term>\<open>None\<close>.
\<close>

record spi_transfer =
  cs_change :: int
  tx_buf :: "nat option"
  rx_buf :: "nat option"
  len :: nat

text \<open>\<^verbatim>\<open>cell_t\<close>: one populated cell tap, the chip's address and the register of the tap.\<close>

record cell =
  chip :: int
  index :: int

text \<open>
  The driver's globals: \<^verbatim>\<open>bq_ctl\<close> (message, transfer array and the two buffers),
  \<^verbatim>\<open>xfer_index\<close>, \<^verbatim>\<open>byte_index\<close>, the pack configuration and the cell table. Arrays are
  stores from the slot number to the slot's value: \<^verbatim>\<open>bq_ctl.xfer\<close> has the slots
  \<open>0 .. MAX_XFER - 1\<close> and the buffers the bytes \<open>0 .. SPI_BUFF_SIZE - 1\<close>; a store at another
  slot number is a store past the end of the C array. \<^verbatim>\<open>bq_ctl.msg\<close> is the list of the
  slots queued by \<^verbatim>\<open>spi_message_add_tail\<close>, in order. \<^verbatim>\<open>byte_index\<close> starts at 0 and is only
  ever incremented, so it is a \<^typ>\<open>nat\<close>. The field \<open>bus\<close> is the state of the devices on the
  SPI bus, which is outside the driver.
\<close>

record 'b driver =
  msg :: "int list"
  xfer :: "int \<Rightarrow> spi_transfer"
  tx_buff :: "nat \<Rightarrow> u8"
  rx_buff :: "nat \<Rightarrow> u8"
  xfer_index :: int
  byte_index :: nat
  devices_used :: int
  cells_per_device :: "int \<Rightarrow> int"
  cells :: "nat \<Rightarrow> cell"
  total_cell_count :: int
  bus :: 'b

text \<open>
  The bus primitive behind \<^verbatim>\<open>spi_sync\<close>: from the state of the bus, the queued transfers and
  the two buffers it gives the status, the receive buffer as the transfer left it and the new
  state of the bus. It is a parameter of every operation that executes a batch.
\<close>

type_synonym 'b spi_bus =
  "'b \<Rightarrow> spi_transfer list \<Rightarrow> (nat \<Rightarrow> u8) \<Rightarrow> (nat \<Rightarrow> u8) \<Rightarrow> int \<times> (nat \<Rightarrow> u8) \<times> 'b"

definition spi_sync :: "'b spi_bus \<Rightarrow> 'b driver \<Rightarrow> int \<times> 'b driver" where
  "spi_sync spi s =
     (case spi (bus s) (map (xfer s) (msg s)) (tx_buff s) (rx_buff s) of
        (status, rx, b) \<Rightarrow> (status, s\<lparr>rx_buff := rx, bus := b\<rparr>))"

text \<open>The \<open>n\<close> bytes of a buffer from offset \<open>off\<close> on.\<close>

definition bytes :: "(nat \<Rightarrow> u8) \<Rightarrow> nat \<Rightarrow> nat \<Rightarrow> u8 list" where
  "bytes buf off n = map (\<lambda>i. buf (off + i)) [0..<n]"

section \<open>Chain transport\<close>

definition bq_prepare_spi_message :: "'b driver \<Rightarrow> 'b driver" where
  "bq_prepare_spi_message s =
     s\<lparr>msg := [],
       rx_buff := (\<lambda>i. if i < SPI_BUFF_SIZE then 0 else rx_buff s i),
       xfer_index := - 1,
       byte_index := 0\<rparr>"

definition writeRegister :: "u8 \<Rightarrow> u8 \<Rightarrow> u8 \<Rightarrow> 'b driver \<Rightarrow> int \<times> 'b driver" where
  "writeRegister address reg data s =
     (if xfer_index s \<ge> MAX_XFER then (- EFAULT, s)
      else
        let i = xfer_index s + 1;
            b = byte_index s;
            command = push_bit 1 address OR 1;
            tx = (tx_buff s)(b := command, b + 1 := reg, b + 2 := data);
            tx = tx(b + 3 := crc8 crc8_table (bytes tx b 3) 0)
        in (0, s\<lparr>xfer_index := i,
                 xfer := (xfer s)(i := \<lparr>cs_change = 1, tx_buf = Some b, rx_buf = None, len = 4\<rparr>),
                 tx_buff := tx,
                 byte_index := b + 4,
                 msg := msg s @ [i]\<rparr>))"

text \<open>
  The received CRC byte is read through a \<^verbatim>\<open>char\<close> pointer and compared with the \<^verbatim>\<open>u8\<close>
  computed CRC. The driver is written for the ARM Beaglebone, where plain \<^verbatim>\<open>char\<close> is unsigned.
\<close>

definition char_value :: "u8 \<Rightarrow> int" where
  "char_value c = uint c"

text \<open>
  \<^verbatim>\<open>readRegister\<close> up to the call of \<^verbatim>\<open>spi_sync\<close>: the transfer slot is filled, the three
  request bytes are stored and the transfer is queued. The caller has incremented
  \<^verbatim>\<open>xfer_index\<close> already.
\<close>

definition readRegister_queue :: "u8 \<Rightarrow> u8 \<Rightarrow> int \<Rightarrow> 'b driver \<Rightarrow> 'b driver" where
  "readRegister_queue address reg count s =
     (let i = xfer_index s;
          b = byte_index s;
          command = push_bit 1 address
      in s\<lparr>xfer := (xfer s)(i := \<lparr>cs_change = 1, tx_buf = Some b, rx_buf = Some b,
                                   len = 4 + nat count\<rparr>),
            tx_buff := (tx_buff s)(b := command, b + 1 := reg, b + 2 := word_of_int count),
            byte_index := b + 3 + nat count + 1,
            msg := msg s @ [i]\<rparr>)"

definition readRegister :: "'b spi_bus \<Rightarrow> u8 \<Rightarrow> u8 \<Rightarrow> int \<Rightarrow> 'b driver \<Rightarrow> int \<times> 'b driver" where
  "readRegister spi address reg count s =
     (if count \<noteq> 1 \<and> count \<noteq> 2 then (- EFAULT, s)
      else
        let s = s\<lparr>xfer_index := xfer_index s + 1\<rparr> in
        if xfer_index s \<ge> MAX_XFER then (- EFAULT, s)
        else
          let b = byte_index s;
              (status, s) = spi_sync spi (readRegister_queue address reg count s)
          in if status \<noteq> 0 then (status, s)
             else
               let crc = crc8 crc8_table (bytes (tx_buff s) b 3) 0;
                   crc = crc8 crc8_table (bytes (rx_buff s) (b + 3) (nat count)) crc
               in if uint crc \<noteq> char_value (rx_buff s (b + nat count + 3)) then (- EFAULT, s)
                  else if count = 1 then (uint (rx_buff s (b + 3)), s)
                  else (push_bit 8 (uint (rx_buff s (b + 3))) OR uint (rx_buff s (b + 4)), s))"

text \<open>
  The pack configuration: the globals that the transport never touches. The loops below test
  \<^verbatim>\<open>total_cell_count\<close> and \<^verbatim>\<open>devices_used\<close> on every pass, and they end because a register
  read leaves them as they are.
\<close>

definition config :: "'b driver \<Rightarrow> int \<times> (int \<Rightarrow> int) \<times> (nat \<Rightarrow> cell) \<times> int" where
  "config s = (devices_used s, cells_per_device s, cells s, total_cell_count s)"

lemma config_spi_sync: "config (snd (spi_sync spi s)) = config s"
  by (simp add: spi_sync_def config_def split_beta)

lemma config_readRegister_queue: "config (readRegister_queue address reg count s) = config s"
  by (simp add: readRegister_queue_def config_def Let_def)

lemma config_readRegister: "config (snd (readRegister spi address reg count s)) = config s"
  by (simp add: readRegister_def Let_def split_beta config_spi_sync config_readRegister_queue)
     (simp add: config_def)

lemma config_prepare: "config (bq_prepare_spi_message s) = config s"
  by (simp add: bq_prepare_spi_message_def config_def)

lemma config_writeRegister: "config (snd (writeRegister address reg data s)) = config s"
  by (simp add: writeRegister_def Let_def config_def)

lemma readRegister_prepare_config:
  assumes "(temp, s') = readRegister spi address reg count (bq_prepare_spi_message s)"
  shows "config s' = config s"
proof -
  have "s' = snd (readRegister spi address reg count (bq_prepare_spi_message s))"
    by (simp flip: assms)
  then show ?thesis
    by (simp add: config_readRegister config_prepare)
qed

section \<open>Telemetry aggregator\<close>

text \<open>
  The polling loop of \<^verbatim>\<open>get_voltages\<close> (\<^verbatim>\<open>do ... while ((temp & DRDY) == 0)\<close>). \<open>tries\<close> is
  the value of the counter before the post-increment of \<^verbatim>\<open>tries++ > 5\<close>. The result is
  \<^term>\<open>None\<close> when the loop gives up (\<^verbatim>\<open>return 0\<close>), and the last status read otherwise.
\<close>

function get_voltages_wait :: "'b spi_bus \<Rightarrow> int \<Rightarrow> 'b driver \<Rightarrow> int option \<times> 'b driver" where
  "get_voltages_wait spi tries s =
     (case readRegister spi 1 DEVICE_STATUS 1 (bq_prepare_spi_message s) of
        (temp, s') \<Rightarrow>
          if tries > 5 then (None, s')
          else if temp AND DRDY = 0 then get_voltages_wait spi (tries + 1) s'
          else (Some temp, s'))"
  by pat_completeness auto
termination
  by (relation "measure (\<lambda>(spi, tries, s). nat (6 - tries))") auto

text \<open>
  The bytes stored through \<^verbatim>\<open>p\<close> are collected in a list, in the order of the stores. The
  voltage loop: one 2-byte read per entry of the cell table, rescaled with C's truncating
  division and stored into a byte.
\<close>

function get_voltages_cells ::
  "'b spi_bus \<Rightarrow> int \<Rightarrow> u8 list \<Rightarrow> 'b driver \<Rightarrow> u8 list \<times> 'b driver" where
  "get_voltages_cells spi i p s =
     (if i < total_cell_count s then
        (case readRegister spi (word_of_int (chip (cells s (nat i))))
                (word_of_int (index (cells s (nat i)))) 2 (bq_prepare_spi_message s) of
           (temp, s') \<Rightarrow>
             get_voltages_cells spi (i + 1) (p @ [word_of_int ((temp * 6250) sdiv 327660)]) s')
      else (p, s))"
  by pat_completeness auto
termination
  by (relation "measure (\<lambda>(spi, i, p, s). nat (total_cell_count s - i))")
    (auto dest!: readRegister_prepare_config simp: config_def)

text \<open>
  The body of the per-device loop: the declared cell count, the two temperatures (each read
  on a fresh batch) and five status bytes read one after the other on one batch.
\<close>

definition get_voltages_device ::
  "'b spi_bus \<Rightarrow> int \<Rightarrow> u8 list \<Rightarrow> 'b driver \<Rightarrow> u8 list \<times> 'b driver" where
  "get_voltages_device spi i p s =
     (let p = p @ [word_of_int (cells_per_device s i)];
          (temp, s) = readRegister spi (word_of_int i) TEMPERATURE1 2 (bq_prepare_spi_message s);
          temp = temp - 2048;
          temp = temp sdiv 120;
          p = p @ [word_of_int temp];
          (temp, s) = readRegister spi (word_of_int i) TEMPERATURE2 2 (bq_prepare_spi_message s);
          temp = temp - 2048;
          temp = temp sdiv 120;
          p = p @ [word_of_int temp];
          s = bq_prepare_spi_message s;
          (v, s) = readRegister spi (word_of_int i) DEVICE_STATUS 1 s;
          p = p @ [word_of_int v];
          (v, s) = readRegister spi (word_of_int i) FAULT_STATUS 1 s;
          p = p @ [word_of_int v];
          (v, s) = readRegister spi (word_of_int i) ALERT_STATUS 1 s;
          p = p @ [word_of_int v];
          (v, s) = readRegister spi (word_of_int i) CUV_FAULT 1 s;
          p = p @ [word_of_int v];
          (v, s) = readRegister spi (word_of_int i) COV_FAULT 1 s;
          p = p @ [word_of_int v]
      in (p, s))"

lemma config_get_voltages_device:
  "config (snd (get_voltages_device spi i p s)) = config s"
  by (simp add: get_voltages_device_def Let_def split_beta config_readRegister config_prepare)

lemma devices_used_get_voltages_device:
  "devices_used (snd (get_voltages_device spi i p s)) = devices_used s"
  using config_get_voltages_device [of spi i p s] by (simp add: config_def)

function get_voltages_devices ::
  "'b spi_bus \<Rightarrow> int \<Rightarrow> u8 list \<Rightarrow> 'b driver \<Rightarrow> u8 list \<times> 'b driver" where
  "get_voltages_devices spi i p s =
     (if i < devices_used s + 1 then
        (case get_voltages_device spi i p s of
           (p', s') \<Rightarrow> get_voltages_devices spi (i + 1) p' s')
      else (p, s))"
  by pat_completeness auto
termination
  by (relation "measure (\<lambda>(spi, i, p, s). nat (devices_used s + 1 - i))")
    (auto simp: split_beta devices_used_get_voltages_device)

text \<open>
  \<^verbatim>\<open>get_voltages\<close> from the store of the cell count on (the two emission loops and the CRC),
  and the whole function. The result is the returned length, the bytes stored through \<^verbatim>\<open>p\<close>
  and the state; a \<^verbatim>\<open>return 0\<close> has stored nothing.
\<close>

definition get_voltages_emit :: "'b spi_bus \<Rightarrow> 'b driver \<Rightarrow> int \<times> u8 list \<times> 'b driver" where
  "get_voltages_emit spi s =
     (let p = [word_of_int (total_cell_count s)];
          (p, s) = get_voltages_cells spi 0 p s;
          p = p @ [word_of_int (devices_used s)];
          (p, s) = get_voltages_devices spi 1 p s;
          size = int (length p);
          p = p @ [crc8 crc8_table p 0]
      in (size + 1, p, s))"

definition get_voltages :: "'b spi_bus \<Rightarrow> 'b driver \<Rightarrow> int \<times> u8 list \<times> 'b driver" where
  "get_voltages spi s =
     (let s = bq_prepare_spi_message s;
          (_, s) = writeRegister BROADCAST ADC_CONVERT AC_CONV s;
          (status, s) = spi_sync spi s
      in if status \<noteq> 0 then (0, [], s)
         else
           (case get_voltages_wait spi 0 s of
              (None, s) \<Rightarrow> (0, [], s)
            | (Some temp, s) \<Rightarrow> get_voltages_emit spi s))"

section \<open>Discovery\<close>

text \<open>
  The inner loop of \<^verbatim>\<open>search_pack\<close> (\<^verbatim>\<open>do { n++; ... } while (n < look_for)\<close>), entered with
  the value of \<^verbatim>\<open>n\<close> before the increment. \<^term>\<open>Inl r\<close> is a \<^verbatim>\<open>return r\<close> out of
  \<^verbatim>\<open>search_pack\<close>; \<^term>\<open>Inr n\<close> is the end of the loop with the final \<^verbatim>\<open>n\<close>. \<^verbatim>\<open>n\<close> and
  \<^verbatim>\<open>look_for\<close> are \<^verbatim>\<open>u8\<close>, and so is the returned value: \<^verbatim>\<open>return status\<close> and
  \<^verbatim>\<open>return n-1\<close> are reduced modulo 256.
\<close>

lemma search_pack_inner_measure:
  fixes n look_for :: u8
  assumes "n + 1 < look_for"
  shows "unat look_for - unat (n + 1)
       < (if n < look_for then unat look_for - unat n else unat look_for + 1)"
proof (cases "n < look_for")
  case True
  then have "unat n < unat look_for" by (simp add: word_less_nat_alt)
  moreover have "unat look_for < 256" using unsigned_less [of look_for] by simp
  ultimately have "unat (n + 1) = unat n + 1" by (simp add: unat_word_ariths)
  moreover have "unat (n + 1) < unat look_for"
    using assms by (simp add: word_less_nat_alt)
  ultimately show ?thesis using True by simp
next
  case False
  have "unat (n + 1) < unat look_for"
    using assms by (simp add: word_less_nat_alt)
  then show ?thesis using False by simp
qed

function search_pack_inner ::
  "'b spi_bus \<Rightarrow> u8 \<Rightarrow> u8 \<Rightarrow> 'b driver \<Rightarrow> (u8 + u8) \<times> 'b driver" where
  "search_pack_inner spi look_for n s =
     (case writeRegister DISCOVERY_ADDR ADDRESS_CONTROL (n + 1) s of
        (status, s1) \<Rightarrow>
          if status \<noteq> 0 then (Inl (word_of_int status), s1)
          else
            (case readRegister spi (n + 1) ADDRESS_CONTROL 1 s1 of
               (verify, s2) \<Rightarrow>
                 if verify < 0 then (Inl (n + 1 - 1), s2)
                 else if verify \<noteq> uint ((n + 1) OR AC_ADDR_RQST) then (Inl (n + 1 - 1), s2)
                 else if n + 1 < look_for
                   then search_pack_inner spi look_for (n + 1) (bq_prepare_spi_message s2)
                   else (Inr (n + 1), bq_prepare_spi_message s2)))"
  by pat_completeness auto
termination
  by (relation "measure (\<lambda>(spi, look_for, n, s).
          if n < look_for then unat look_for - unat n else unat look_for + 1)")
    (simp, simp only: in_measure prod.case if_True, rule search_pack_inner_measure, assumption)

text \<open>
  The outer loop (\<^verbatim>\<open>do { ... } while (n < devices_used)\<close>), entered with the value of
  \<^verbatim>\<open>look_for\<close> before the increment. \<^verbatim>\<open>look_for\<close> is a \<^verbatim>\<open>u8\<close> and \<^verbatim>\<open>devices_used\<close> an
  \<^verbatim>\<open>int\<close>: with more than 255 devices configured the loop need not end, so the result is an
  option and \<^term>\<open>None\<close> stands for a run that never returns.
\<close>

partial_function (option) search_pack_outer ::
  "'b spi_bus \<Rightarrow> u8 \<Rightarrow> 'b driver \<Rightarrow> (u8 \<times> 'b driver) option" where
  "search_pack_outer spi look_for s =
     (case writeRegister BROADCAST RESET RESET_COMMAND s of
        (status, s1) \<Rightarrow>
          if status \<noteq> 0 then Some (word_of_int status, s1)
          else
            (case search_pack_inner spi (look_for + 1) 0 s1 of
               (Inl r, s2) \<Rightarrow> Some (r, s2)
             | (Inr n, s2) \<Rightarrow>
                 if uint n < devices_used s2 then search_pack_outer spi (look_for + 1) s2
                 else Some (n, s2)))"

definition search_pack :: "'b spi_bus \<Rightarrow> 'b driver \<Rightarrow> (u8 \<times> 'b driver) option" where
  "search_pack spi s = search_pack_outer spi 0 (bq_prepare_spi_message s)"

section \<open>Cell census\<close>

text \<open>
  The census of \<^verbatim>\<open>bq_probe\<close>. The first pass counts the taps whose reading is above the
  threshold, for one chip (\<^verbatim>\<open>j = VCELL1, VCELL1 + 2, ..., VCELL6\<close>) and for all chips
  (\<^verbatim>\<open>i = 1 .. count\<close>), and overwrites the declared cell count of a chip that disagrees.
\<close>

function bq_probe_count_chip ::
  "'b spi_bus \<Rightarrow> int \<Rightarrow> int \<Rightarrow> int \<Rightarrow> 'b driver \<Rightarrow> int \<times> 'b driver" where
  "bq_probe_count_chip spi i j chip_cell_count s =
     (if j \<le> VCELL6 then
        (case readRegister spi (word_of_int i) (word_of_int j) 2 (bq_prepare_spi_message s) of
           (temp, s') \<Rightarrow>
             if temp > CELL_MISSING_THRESHOLD
             then bq_probe_count_chip spi i (j + 2) (chip_cell_count + 1)
                    (s'\<lparr>total_cell_count := total_cell_count s' + 1\<rparr>)
             else bq_probe_count_chip spi i (j + 2) chip_cell_count s')
      else (chip_cell_count, s))"
  by pat_completeness auto
termination
  by (relation "measure (\<lambda>(spi, i, j, c, s). nat (VCELL6 + 2 - j))") auto

function bq_probe_count :: "'b spi_bus \<Rightarrow> int \<Rightarrow> int \<Rightarrow> 'b driver \<Rightarrow> 'b driver" where
  "bq_probe_count spi count i s =
     (if i < count + 1 then
        (case bq_probe_count_chip spi i VCELL1 0 s of
           (chip_cell_count, s') \<Rightarrow>
             bq_probe_count spi count (i + 1)
               (if cells_per_device s' i \<noteq> chip_cell_count
                then s'\<lparr>cells_per_device := (cells_per_device s')(i := chip_cell_count)\<rparr>
                else s'))
      else s)"
  by pat_completeness auto
termination
  by (relation "measure (\<lambda>(spi, count, i, s). nat (count + 1 - i))") auto

text \<open>
  The second pass reads every tap again and stores the populated ones into \<^verbatim>\<open>cells\<close>, at
  \<^verbatim>\<open>cell_index\<close>, which it returns.
\<close>

function bq_probe_fill_chip ::
  "'b spi_bus \<Rightarrow> int \<Rightarrow> int \<Rightarrow> nat \<Rightarrow> 'b driver \<Rightarrow> nat \<times> 'b driver" where
  "bq_probe_fill_chip spi i j cell_index s =
     (if j \<le> VCELL6 then
        (case readRegister spi (word_of_int i) (word_of_int j) 2 (bq_prepare_spi_message s) of
           (temp, s') \<Rightarrow>
             if temp > CELL_MISSING_THRESHOLD
             then bq_probe_fill_chip spi i (j + 2) (cell_index + 1)
                    (s'\<lparr>cells := (cells s')(cell_index := \<lparr>chip = i, index = j\<rparr>)\<rparr>)
             else bq_probe_fill_chip spi i (j + 2) cell_index s')
      else (cell_index, s))"
  by pat_completeness auto
termination
  by (relation "measure (\<lambda>(spi, i, j, c, s). nat (VCELL6 + 2 - j))") auto

function bq_probe_fill ::
  "'b spi_bus \<Rightarrow> int \<Rightarrow> int \<Rightarrow> nat \<Rightarrow> 'b driver \<Rightarrow> nat \<times> 'b driver" where
  "bq_probe_fill spi count i cell_index s =
     (if i < count + 1 then
        (case bq_probe_fill_chip spi i VCELL1 cell_index s of
           (cell_index', s') \<Rightarrow> bq_probe_fill spi count (i + 1) cell_index' s')
      else (cell_index, s))"
  by pat_completeness auto
termination
  by (relation "measure (\<lambda>(spi, count, i, c, s). nat (count + 1 - i))") auto

text \<open>
  Lines 633 to 688 of \<^verbatim>\<open>bq_probe\<close>: the count, the allocation of \<^verbatim>\<open>cells\<close> for
  \<^verbatim>\<open>total_cell_count\<close> entries and the fill. \<open>count\<close> is the result of \<^verbatim>\<open>search_pack\<close>;
  \<open>kmalloc_ok\<close> says whether the allocation succeeds, and the entries of the fresh table are
  whatever they were until the fill stores them. The result is \<^verbatim>\<open>-ENOMEM\<close>, or the final
  \<^verbatim>\<open>cell_index\<close> and the state.
\<close>

definition bq_probe_census ::
  "'b spi_bus \<Rightarrow> bool \<Rightarrow> int \<Rightarrow> 'b driver \<Rightarrow> int + nat \<times> 'b driver" where
  "bq_probe_census spi kmalloc_ok count s =
     (let s = s\<lparr>total_cell_count := 0\<rparr>;
          s = bq_probe_count spi count 1 s
      in if \<not> kmalloc_ok then Inl (- ENOMEM)
         else Inr (bq_probe_fill spi count 1 0 s))"

text \<open>The loops are unfolded by hand in the proofs, one pass at a time.\<close>

declare get_voltages_wait.simps [simp del]
declare get_voltages_cells.simps [simp del]
declare get_voltages_devices.simps [simp del]
declare search_pack_inner.simps [simp del]
declare bq_probe_count_chip.simps [simp del]
declare bq_probe_count.simps [simp del]
declare bq_probe_fill_chip.simps [simp del]
declare bq_probe_fill.simps [simp del]

section \<open>Auxiliary definitions\<close>

text \<open>
  For the proofs about the CRC table: a set of bytes closed under xor, and the check that the
  round constant of every round of \<^verbatim>\<open>crc8_populate_msb\<close> is new to the table filled so far.
\<close>

definition xor_closed :: "u8 set \<Rightarrow> bool" where
  "xor_closed S = (\<forall>x\<in>S. \<forall>y\<in>S. x XOR y \<in> S)"

fun independent_rounds :: "nat \<Rightarrow> u8 \<times> u8 list \<Rightarrow> bool" where
  "independent_rounds 0 st = True"
| "independent_rounds (Suc k) st =
     (fst (crc8_populate_round 7 st) \<notin> set (snd st) \<and>
      independent_rounds k (crc8_populate_round 7 st))"

text \<open>
  What the bus answers to the batch that \<^verbatim>\<open>readRegister\<close> executes when it is called in the
  state \<open>s\<close>: the status, the receive buffer and the next state of the bus.
\<close>

definition bus_reply ::
  "'b spi_bus \<Rightarrow> u8 \<Rightarrow> u8 \<Rightarrow> int \<Rightarrow> 'b driver \<Rightarrow> int \<times> (nat \<Rightarrow> u8) \<times> 'b" where
  "bus_reply spi address reg count s =
     (let q = readRegister_queue address reg count (s\<lparr>xfer_index := xfer_index s + 1\<rparr>)
      in spi (bus q) (map (xfer q) (msg q)) (tx_buff q) (rx_buff q))"

text \<open>Corruption of a received frame: bit \<open>k\<close> of the frame is inverted, bit 0 being the lowest
  bit of the first byte.\<close>

definition flip_frame_bit :: "nat \<Rightarrow> u8 list \<Rightarrow> u8 list" where
  "flip_frame_bit k frame = frame[k div 8 := flip_bit (k mod 8) (frame ! (k div 8))]"

section \<open>Facts about buffers, the CRC and a register read\<close>

lemma bytes_0: "bytes buf off 0 = []"
  by (simp add: bytes_def)

lemma bytes_Suc: "bytes buf off (Suc n) = buf off # bytes buf (Suc off) n"
  unfolding bytes_def
  by (simp add: upt_conv_Cons map_Suc_upt [symmetric] del: upt_Suc)

lemma bytes_1: "bytes buf off 1 = [buf off]"
  using bytes_Suc [of buf off 0] by (simp add: bytes_0)

lemma bytes_2: "bytes buf off 2 = [buf off, buf (off + 1)]"
  by (simp add: numeral_2_eq_2 bytes_Suc bytes_0)

lemma bytes_3: "bytes buf off 3 = [buf off, buf (off + 1), buf (off + 2)]"
  by (simp add: numeral_3_eq_3 bytes_Suc bytes_0)

lemma bytes_4: "bytes buf off 4 = [buf off, buf (off + 1), buf (off + 2), buf (off + 3)]"
  by (simp add: eval_nat_numeral bytes_Suc bytes_0)

lemma crc8_append: "crc8 table (xs @ ys) c = crc8 table ys (crc8 table xs c)"
  by (simp add: crc8_def)

lemma big_endian_pair:
  "push_bit 8 (uint (hi :: u8)) OR uint (lo :: u8) = uint hi * 256 + uint lo"
proof -
  have "push_bit 8 (uint hi) AND uint lo = 0"
    by (rule bit_eqI) (auto simp: bit_simps dest: bit_imp_le_length)
  then have "push_bit 8 (uint hi) + uint lo = push_bit 8 (uint hi) OR uint lo"
    by (rule disjunctive_add_eq_or)
  then show ?thesis
    by (simp add: push_bit_eq_mult)
qed

lemma readRegister_unfold_1:
  assumes "xfer_index s + 1 < MAX_XFER"
    and "bus_reply spi address reg 1 s = (st, rx, b)"
  shows "readRegister spi address reg 1 s =
    ((if st \<noteq> 0 then st
      else if crc8 crc8_table [push_bit 1 address, reg, 1, rx (byte_index s + 3)] 0
                \<noteq> rx (byte_index s + 4)
        then - EFAULT
      else uint (rx (byte_index s + 3))),
     (readRegister_queue address reg 1 (s\<lparr>xfer_index := xfer_index s + 1\<rparr>))
       \<lparr>rx_buff := rx, bus := b\<rparr>)"
proof -
  let ?q = "readRegister_queue address reg 1 (s\<lparr>xfer_index := xfer_index s + 1\<rparr>)"
  have sync: "spi_sync spi ?q = (st, ?q\<lparr>rx_buff := rx, bus := b\<rparr>)"
    using assms(2) by (simp add: spi_sync_def bus_reply_def Let_def)
  have tx: "bytes (tx_buff ?q) (byte_index s) 3 = [push_bit 1 address, reg, 1]"
    by (simp add: readRegister_queue_def Let_def bytes_3)
  have rxb: "bytes rx (byte_index s + 3) (Suc 0) = [rx (byte_index s + 3)]"
    by (simp add: bytes_Suc bytes_0)
  show ?thesis
    using assms(1)
    by (simp add: readRegister_def Let_def sync tx rxb crc8_def char_value_def
         word_uint_eq_iff [symmetric])
      (simp add: add.commute)
qed

lemma readRegister_unfold_2:
  assumes "xfer_index s + 1 < MAX_XFER"
    and "bus_reply spi address reg 2 s = (st, rx, b)"
  shows "readRegister spi address reg 2 s =
    ((if st \<noteq> 0 then st
      else if crc8 crc8_table [push_bit 1 address, reg, 2, rx (byte_index s + 3),
                rx (byte_index s + 4)] 0 \<noteq> rx (byte_index s + 5)
        then - EFAULT
      else uint (rx (byte_index s + 3)) * 256 + uint (rx (byte_index s + 4))),
     (readRegister_queue address reg 2 (s\<lparr>xfer_index := xfer_index s + 1\<rparr>))
       \<lparr>rx_buff := rx, bus := b\<rparr>)"
proof -
  let ?q = "readRegister_queue address reg 2 (s\<lparr>xfer_index := xfer_index s + 1\<rparr>)"
  have sync: "spi_sync spi ?q = (st, ?q\<lparr>rx_buff := rx, bus := b\<rparr>)"
    using assms(2) by (simp add: spi_sync_def bus_reply_def Let_def)
  have tx: "bytes (tx_buff ?q) (byte_index s) 3 = [push_bit 1 address, reg, 2]"
    by (simp add: readRegister_queue_def Let_def bytes_3)
  have rxb: "bytes rx (byte_index s + 3) 2 = [rx (byte_index s + 3), rx (byte_index s + 4)]"
    by (simp add: eval_nat_numeral bytes_Suc bytes_0)
  show ?thesis
    using assms(1)
    by (simp add: readRegister_def Let_def sync tx rxb crc8_def char_value_def big_endian_pair
         word_uint_eq_iff [symmetric])
      (simp add: add.commute)
qed


lemma xor_round_distinct:
  assumes "distinct tab" "xor_closed (set tab)" "t \<notin> set tab"
  shows "distinct (tab @ map (\<lambda>x. x XOR t) tab)"
proof -
  have inj: "inj (\<lambda>x::u8. x XOR t)"
  proof (rule injI)
    fix x y :: u8
    assume "x XOR t = y XOR t"
    then have "(x XOR t) XOR t = (y XOR t) XOR t" by simp
    then show "x = y" by (simp add: xor.assoc)
  qed
  have "set tab \<inter> set (map (\<lambda>x. x XOR t) tab) = {}"
  proof (rule ccontr)
    assume "set tab \<inter> set (map (\<lambda>x. x XOR t) tab) \<noteq> {}"
    then obtain x y where xy: "x \<in> set tab" "y \<in> set tab" "x = y XOR t"
      by auto
    then have "x XOR y \<in> set tab"
      using assms(2) by (simp add: xor_closed_def)
    moreover have "x XOR y = t"
      using xy(3) by (simp add: xor.commute xor.left_commute)
    ultimately show False using assms(3) by simp
  qed
  then show ?thesis
    using assms(1) inj by (simp add: distinct_map inj_on_subset [OF _ subset_UNIV])
qed

lemma xor_round_closed:
  assumes "xor_closed (set tab)"
  shows "xor_closed (set (tab @ map (\<lambda>x. x XOR t) tab))"
  unfolding xor_closed_def
proof (intro ballI)
  fix x y
  assume x: "x \<in> set (tab @ map (\<lambda>x. x XOR t) tab)"
    and y: "y \<in> set (tab @ map (\<lambda>x. x XOR t) tab)"
  have c: "\<And>a b. a \<in> set tab \<Longrightarrow> b \<in> set tab \<Longrightarrow> a XOR b \<in> set tab"
    using assms by (simp add: xor_closed_def)
  from x y consider
      (aa) "x \<in> set tab" "y \<in> set tab"
    | (ab) a where "x \<in> set tab" "a \<in> set tab" "y = a XOR t"
    | (ba) a where "a \<in> set tab" "x = a XOR t" "y \<in> set tab"
    | (bb) a b where "a \<in> set tab" "b \<in> set tab" "x = a XOR t" "y = b XOR t"
    by auto
  then show "x XOR y \<in> set (tab @ map (\<lambda>x. x XOR t) tab)"
  proof cases
    case aa
    then show ?thesis using c by simp
  next
    case ab
    then have "x XOR y = (x XOR a) XOR t" by (simp add: xor.assoc)
    then show ?thesis using c [OF ab(1) ab(2)] by auto
  next
    case ba
    then have "x XOR y = (a XOR y) XOR t" by (simp add: xor.assoc xor.commute xor.left_commute)
    then show ?thesis using c [OF ba(1) ba(3)] by auto
  next
    case bb
    then have "x XOR y = a XOR b" by (simp add: xor.assoc xor.commute xor.left_commute)
    then show ?thesis using c [OF bb(1) bb(2)] by simp
  qed
qed

lemma independent_rounds_8: "independent_rounds 8 (0x80, [0])"
  by code_simp

lemma rounds_distinct:
  "distinct (snd st) \<Longrightarrow> xor_closed (set (snd st)) \<Longrightarrow> independent_rounds k st \<Longrightarrow>
   distinct (snd ((crc8_populate_round 7 ^^ k) st)) \<and>
   length (snd ((crc8_populate_round 7 ^^ k) st)) = 2 ^ k * length (snd st)"
proof (induction k arbitrary: st)
  case 0
  then show ?case by simp
next
  case (Suc k)
  obtain t tab where st: "st = (t, tab)" by (cases st)
  obtain t' where r: "crc8_populate_round 7 st = (t', tab @ map (\<lambda>x. x XOR t') tab)"
    by (simp add: st crc8_populate_round_def Let_def)
  from Suc.prems have "t' \<notin> set tab" "independent_rounds k (crc8_populate_round 7 st)"
    using r by (simp_all add: st)
  moreover have "distinct (tab @ map (\<lambda>x. x XOR t') tab)"
    using Suc.prems \<open>t' \<notin> set tab\<close> by (intro xor_round_distinct) (simp_all add: st)
  moreover have "xor_closed (set (tab @ map (\<lambda>x. x XOR t') tab))"
    using Suc.prems by (intro xor_round_closed) (simp add: st)
  ultimately have "distinct (snd ((crc8_populate_round 7 ^^ k) (crc8_populate_round 7 st))) \<and>
     length (snd ((crc8_populate_round 7 ^^ k) (crc8_populate_round 7 st)))
       = 2 ^ k * length (snd (crc8_populate_round 7 st))"
    by (intro Suc.IH) (simp_all add: r)
  then show ?case
    using r by (simp add: funpow_swap1 st)
qed

lemma crc8_table_distinct: "distinct crc8_table"
  using rounds_distinct [of "(0x80, [0])" 8] independent_rounds_8
  by (simp add: crc8_table_def crc8_populate_msb_def xor_closed_def)

lemma crc8_table_length: "length crc8_table = 256"
  using rounds_distinct [of "(0x80, [0])" 8] independent_rounds_8
  by (simp add: crc8_table_def crc8_populate_msb_def xor_closed_def)

lemma crc8_step_inj:
  fixes x y :: u8
  assumes "crc8_table ! unat x = crc8_table ! unat y"
  shows "x = y"
proof -
  have "unat x < length crc8_table" "unat y < length crc8_table"
    using unsigned_less [of x, where 'a = nat] unsigned_less [of y, where 'a = nat]
    by (simp_all add: crc8_table_length)
  then have "unat x = unat y"
    using assms crc8_table_distinct by (simp add: nth_eq_iff_index_eq)
  then show ?thesis by (simp add: word_unat_eq_iff)
qed

lemma crc8_init_inj:
  "crc8 crc8_table xs c = crc8 crc8_table xs c' \<Longrightarrow> c = c'"
proof (induction xs arbitrary: c c')
  case Nil
  then show ?case by (simp add: crc8_def)
next
  case (Cons x xs)
  from Cons.prems have "crc8 crc8_table xs (crc8_table ! unat (c XOR x))
      = crc8 crc8_table xs (crc8_table ! unat (c' XOR x))"
    by (simp add: crc8_def)
  then have "crc8_table ! unat (c XOR x) = crc8_table ! unat (c' XOR x)"
    by (rule Cons.IH)
  then have "c XOR x = c' XOR x" by (rule crc8_step_inj)
  then have "(c XOR x) XOR x = (c' XOR x) XOR x" by simp
  then show ?case by (simp add: xor.assoc)
qed

lemma crc8_byte_changed:
  assumes "a \<noteq> a'"
  shows "crc8 crc8_table (xs @ a # ys) c \<noteq> crc8 crc8_table (xs @ a' # ys) c"
proof
  assume "crc8 crc8_table (xs @ a # ys) c = crc8 crc8_table (xs @ a' # ys) c"
  then have "crc8 crc8_table ys (crc8_table ! unat (crc8 crc8_table xs c XOR a))
      = crc8 crc8_table ys (crc8_table ! unat (crc8 crc8_table xs c XOR a'))"
    by (simp add: crc8_def)
  then have "crc8_table ! unat (crc8 crc8_table xs c XOR a)
      = crc8_table ! unat (crc8 crc8_table xs c XOR a')"
    by (rule crc8_init_inj)
  then have "crc8 crc8_table xs c XOR a = crc8 crc8_table xs c XOR a'"
    by (rule crc8_step_inj)
  then have "crc8 crc8_table xs c XOR (crc8 crc8_table xs c XOR a)
      = crc8 crc8_table xs c XOR (crc8 crc8_table xs c XOR a')"
    by simp
  then have "a = a'" by (simp flip: xor.assoc)
  with assms show False by simp
qed

lemma flip_bit_changes:
  fixes w :: u8
  assumes "k < 8"
  shows "flip_bit k w \<noteq> w"
proof -
  have "bit (flip_bit k w) k \<noteq> bit w k"
    using assms by (simp add: bit_flip_bit_iff)
  then show ?thesis by auto
qed

section \<open>Example states and simulated buses\<close>

text \<open>
  A concrete state for the examples: \<^verbatim>\<open>bq_ctl\<close> zeroed as \<^verbatim>\<open>bq_init\<close> leaves it, zero-filled
  buffers, and the pack configuration of the source's initialisers (\<^verbatim>\<open>devices_used = 4\<close>,
  \<^verbatim>\<open>cells_per_device = {0, 4, 4, 4, 3, 0, ...}\<close>).
\<close>

definition bq_init_state :: "'b \<Rightarrow> 'b driver" where
  "bq_init_state b =
     \<lparr>msg = [],
      xfer = (\<lambda>_. \<lparr>cs_change = 0, tx_buf = None, rx_buf = None, len = 0\<rparr>),
      tx_buff = (\<lambda>_. 0),
      rx_buff = (\<lambda>_. 0),
      xfer_index = 0,
      byte_index = 0,
      devices_used = 4,
      cells_per_device = (\<lambda>i. if i = 1 \<or> i = 2 \<or> i = 3 then 4 else if i = 4 then 3 else 0),
      cells = (\<lambda>_. \<lparr>chip = 0, index = 0\<rparr>),
      total_cell_count = 0,
      bus = b\<rparr>"

section \<open>Frame codec and chain transport\<close>

text \<open>
  C9. For every address, register and data byte, \<^verbatim>\<open>writeRegister\<close> on a batch that is not full
  returns 0 and stores exactly four bytes at \<^verbatim>\<open>byte_index\<close>: \<open>address << 1 | 1\<close>, the
  register, the data and the CRC-8 of these three bytes; the transfer queued for them has
  length 4 and no receive buffer, and no other byte of the transmit buffer changes.
\<close>

theorem writeRegister_frame:
  assumes "xfer_index s < MAX_XFER"
  shows "fst (writeRegister address reg data s) = 0 \<and>
    bytes (tx_buff (snd (writeRegister address reg data s))) (byte_index s) 4 =
      [push_bit 1 address OR 1, reg, data,
       crc8 crc8_table [push_bit 1 address OR 1, reg, data] 0] \<and>
    byte_index (snd (writeRegister address reg data s)) = byte_index s + 4 \<and>
    xfer (snd (writeRegister address reg data s)) (xfer_index s + 1) =
      \<lparr>cs_change = 1, tx_buf = Some (byte_index s), rx_buf = None, len = 4\<rparr> \<and>
    msg (snd (writeRegister address reg data s)) = msg s @ [xfer_index s + 1] \<and>
    (\<forall>k. k < byte_index s \<or> byte_index s + 4 \<le> k \<longrightarrow>
       tx_buff (snd (writeRegister address reg data s)) k = tx_buff s k)"
  using assms by (simp add: writeRegister_def Let_def bytes_3 bytes_4)

text \<open>The broadcast RESET write on a fresh batch is such a frame.\<close>

theorem writeRegister_frame_witness:
  "fst (writeRegister BROADCAST RESET RESET_COMMAND (bq_prepare_spi_message (bq_init_state ()))) = 0 \<and>
   bytes (tx_buff (snd (writeRegister BROADCAST RESET RESET_COMMAND
       (bq_prepare_spi_message (bq_init_state ()))))) 0 4 =
     [0x7F, 0x3c, 0xA5, crc8 crc8_table [0x7F, 0x3c, 0xA5] 0]"
  using writeRegister_frame [of "bq_prepare_spi_message (bq_init_state ())"
      BROADCAST RESET RESET_COMMAND]
  by (simp add: bq_prepare_spi_message_def bq_init_state_def MAX_XFER_def BROADCAST_def
        RESET_def RESET_COMMAND_def)


text \<open>A bus that answers nothing: status 0, receive buffer untouched.\<close>

definition idle_bus :: "unit spi_bus" where
  "idle_bus b xs tx rx = (0, rx, b)"

text \<open>A fresh batch followed by \<open>n\<close> queued writes of the broadcast RESET.\<close>

primrec queue_writes :: "nat \<Rightarrow> 'b driver \<Rightarrow> 'b driver" where
  "queue_writes 0 s = bq_prepare_spi_message s"
| "queue_writes (Suc n) s = snd (writeRegister BROADCAST RESET RESET_COMMAND (queue_writes n s))"

lemma queue_writes_index:
  "n \<le> 11 \<Longrightarrow> xfer_index (queue_writes n s) = int n - 1 \<and>
     byte_index (queue_writes n s) = 4 * n \<and> length (msg (queue_writes n s)) = n"
proof (induction n)
  case 0
  then show ?case by (simp add: bq_prepare_spi_message_def)
next
  case (Suc n)
  then show ?case by (simp add: writeRegister_def Let_def MAX_XFER_def)
qed

text \<open>
  C3. Queueing on a full batch. After ten queued writes the batch holds \<^verbatim>\<open>MAX_XFER\<close>
  transfers (slots 0 to 9) and \<^verbatim>\<open>xfer_index\<close> is 9. The guard of \<^verbatim>\<open>writeRegister\<close> tests
  \<^verbatim>\<open>xfer_index >= MAX_XFER\<close> before the increment, so the eleventh write is accepted: it
  returns 0, stores the transfer into slot 10, which is past the end of \<^verbatim>\<open>bq_ctl.xfer\<close>, adds
  four bytes to the transmit buffer and queues the transfer. \<^verbatim>\<open>readRegister\<close> on the same
  batch does return \<^verbatim>\<open>-EFAULT\<close> without a bus operation, but leaves \<^verbatim>\<open>xfer_index\<close> incremented.
\<close>

theorem writeRegister_full_batch:
  "xfer_index (queue_writes 10 (bq_init_state ())) = MAX_XFER - 1 \<and>
   length (msg (queue_writes 10 (bq_init_state ()))) = 10 \<and>
   fst (writeRegister BROADCAST RESET RESET_COMMAND (queue_writes 10 (bq_init_state ()))) = 0 \<and>
   xfer_index (snd (writeRegister BROADCAST RESET RESET_COMMAND
      (queue_writes 10 (bq_init_state ())))) = MAX_XFER \<and>
   xfer (snd (writeRegister BROADCAST RESET RESET_COMMAND
      (queue_writes 10 (bq_init_state ())))) MAX_XFER =
     \<lparr>cs_change = 1, tx_buf = Some 40, rx_buf = None, len = 4\<rparr> \<and>
   byte_index (snd (writeRegister BROADCAST RESET RESET_COMMAND
      (queue_writes 10 (bq_init_state ())))) = 44 \<and>
   length (msg (snd (writeRegister BROADCAST RESET RESET_COMMAND
      (queue_writes 10 (bq_init_state ()))))) = 11 \<and>
   fst (readRegister idle_bus 1 DEVICE_STATUS 1 (queue_writes 10 (bq_init_state ()))) = - EFAULT \<and>
   xfer_index (snd (readRegister idle_bus 1 DEVICE_STATUS 1 (queue_writes 10 (bq_init_state ()))))
     = MAX_XFER"
  using queue_writes_index [of 10 "bq_init_state ()"]
  by (simp add: writeRegister_def readRegister_def Let_def MAX_XFER_def)


text \<open>
  A simulated chain of register files. \<open>regs d r\<close> is the byte in register \<open>r\<close> of the device
  addressed by \<open>d\<close>, the address field of the command byte. The bus answers the last transfer
  of the batch, when it has a receive buffer, with the one or two bytes from the register on
  and the CRC-8 of request and payload, stored after the three request bytes; \<open>corrupt\<close> is
  applied to the frame on its way.
\<close>

definition register_frame :: "(u8 \<Rightarrow> u8 \<Rightarrow> u8) \<Rightarrow> u8 \<Rightarrow> u8 \<Rightarrow> u8 \<Rightarrow> u8 list" where
  "register_frame regs a r c =
     (let d = drop_bit 1 a;
          p = (if c = 1 then [regs d r] else [regs d r, regs d (r + 1)])
      in p @ [crc8 crc8_table ([a, r, c] @ p) 0])"

definition store_frame :: "(nat \<Rightarrow> u8) \<Rightarrow> nat \<Rightarrow> u8 list \<Rightarrow> nat \<Rightarrow> u8" where
  "store_frame rx off frame = (\<lambda>i. if off \<le> i \<and> i < off + length frame then frame ! (i - off) else rx i)"

definition register_bus :: "(u8 \<Rightarrow> u8 \<Rightarrow> u8) \<Rightarrow> (u8 list \<Rightarrow> u8 list) \<Rightarrow> 'b spi_bus" where
  "register_bus regs corrupt b xs tx rx =
     (case rx_buf (last xs) of
        None \<Rightarrow> (0, rx, b)
      | Some off \<Rightarrow>
          (0, store_frame rx (off + 3)
                (corrupt (register_frame regs (tx off) (tx (off + 1)) (tx (off + 2)))), b))"

lemma bytes_store_frame:
  "n = length frame \<Longrightarrow> bytes (store_frame rx off frame) off n = frame"
  by (auto simp: bytes_def store_frame_def intro!: nth_equalityI)

lemma bus_reply_register_bus:
  "bus_reply (register_bus regs corrupt) address reg count s =
     (0, store_frame (rx_buff s) (byte_index s + 3)
           (corrupt (register_frame regs (push_bit 1 address) reg (word_of_int count))), bus s)"
  by (simp add: bus_reply_def register_bus_def readRegister_queue_def Let_def)

lemma length_flip_frame_bit: "length (flip_frame_bit k frame) = length frame"
  by (simp add: flip_frame_bit_def)

text \<open>
  A received frame with a good CRC is decoded to its payload, and a frame with one inverted bit
  is rejected.
\<close>

lemma readRegister_frame_cases:
  assumes "count = 1 \<or> count = 2"
    and "xfer_index s + 1 < MAX_XFER"
    and "length payload = nat count"
    and "bus_reply spi address reg count s = (0, rx, b)"
    and "frame = payload @ [crc8 crc8_table ([push_bit 1 address, reg, word_of_int count] @ payload) 0]"
  shows "(bytes rx (byte_index s + 3) (nat count + 1) = frame \<longrightarrow>
           fst (readRegister spi address reg count s) =
             (if count = 1 then uint (payload ! 0)
              else uint (payload ! 0) * 256 + uint (payload ! 1))) \<and>
         (\<forall>k < 8 * (nat count + 1).
            bytes rx (byte_index s + 3) (nat count + 1) = flip_frame_bit k frame \<longrightarrow>
              fst (readRegister spi address reg count s) = - EFAULT)"
proof -
  from assms(1) show ?thesis
  proof
    assume c: "count = 1"
    obtain p0 where p: "payload = [p0]"
      using assms(3) c by (cases payload) auto
    let ?req = "[push_bit 1 address, reg, 1 :: u8]"
    have rd: "fst (readRegister spi address reg 1 s) =
        (if crc8 crc8_table (?req @ [rx (byte_index s + 3)]) 0 \<noteq> rx (byte_index s + 4)
         then - EFAULT else uint (rx (byte_index s + 3)))"
      using readRegister_unfold_1 [OF assms(2) assms(4) [unfolded c]] by simp
    have by2: "bytes rx (byte_index s + 3) 2 = [rx (byte_index s + 3), rx (byte_index s + 4)]"
      by (simp add: bytes_2 add.commute)
    have fr: "frame = [p0, crc8 crc8_table (?req @ [p0]) 0]"
      using assms(5) by (simp add: p c)
    have good: "fst (readRegister spi address reg 1 s) = uint p0"
      if "bytes rx (byte_index s + 3) 2 = frame"
      using that by (simp add: rd by2 fr)
    have bad: "fst (readRegister spi address reg 1 s) = - EFAULT"
      if k: "k < 16" and eq: "bytes rx (byte_index s + 3) 2 = flip_frame_bit k frame" for k
    proof (cases "k < 8")
      case True
      then have "flip_frame_bit k frame = [flip_bit k p0, crc8 crc8_table (?req @ [p0]) 0]"
        by (simp add: flip_frame_bit_def fr)
      moreover have "crc8 crc8_table (?req @ flip_bit k p0 # []) 0
          \<noteq> crc8 crc8_table (?req @ p0 # []) 0"
        using True by (intro crc8_byte_changed flip_bit_changes)
      ultimately show ?thesis
        using eq by (simp add: rd by2)
    next
      case False
      then have k8: "k div 8 = 1" "k mod 8 < 8" using k by auto
      then have "flip_frame_bit k frame = [p0, flip_bit (k mod 8) (crc8 crc8_table (?req @ [p0]) 0)]"
        by (simp add: flip_frame_bit_def fr)
      moreover have "flip_bit (k mod 8) (crc8 crc8_table (?req @ [p0]) 0)
          \<noteq> crc8 crc8_table (?req @ [p0]) 0"
        using k8(2) by (rule flip_bit_changes)
      ultimately show ?thesis
        using eq by (simp add: rd by2)
    qed
    have n: "nat count + 1 = 2" by (simp add: c)
    show ?thesis
      unfolding n using good bad by (simp add: c p)
  next
    assume c: "count = 2"
    obtain p0 p1 where p: "payload = [p0, p1]"
      using assms(3) c by (cases payload; cases "tl payload") auto
    let ?req = "[push_bit 1 address, reg, 2 :: u8]"
    have rd: "fst (readRegister spi address reg 2 s) =
        (if crc8 crc8_table (?req @ [rx (byte_index s + 3), rx (byte_index s + 4)]) 0
              \<noteq> rx (byte_index s + 5)
         then - EFAULT
         else uint (rx (byte_index s + 3)) * 256 + uint (rx (byte_index s + 4)))"
      using readRegister_unfold_2 [OF assms(2) assms(4) [unfolded c]] by simp
    have by3: "bytes rx (byte_index s + 3) 3 =
        [rx (byte_index s + 3), rx (byte_index s + 4), rx (byte_index s + 5)]"
      by (simp add: bytes_3 add.commute)
    have fr: "frame = [p0, p1, crc8 crc8_table (?req @ [p0, p1]) 0]"
      using assms(5) by (simp add: p c)
    have good: "fst (readRegister spi address reg 2 s) = uint p0 * 256 + uint p1"
      if "bytes rx (byte_index s + 3) 3 = frame"
      using that by (simp add: rd by3 fr)
    have bad: "fst (readRegister spi address reg 2 s) = - EFAULT"
      if k: "k < 24" and eq: "bytes rx (byte_index s + 3) 3 = flip_frame_bit k frame" for k
    proof -
      consider (b0) "k < 8" | (b1) "k div 8 = 1" | (b2) "k div 8 = 2"
        using k by fastforce
      then show ?thesis
      proof cases
        case b0
        then have "flip_frame_bit k frame = [flip_bit k p0, p1, crc8 crc8_table (?req @ [p0, p1]) 0]"
          by (simp add: flip_frame_bit_def fr)
        moreover have "crc8 crc8_table (?req @ flip_bit k p0 # [p1]) 0
            \<noteq> crc8 crc8_table (?req @ p0 # [p1]) 0"
          using b0 by (intro crc8_byte_changed flip_bit_changes)
        ultimately show ?thesis
          using eq by (simp add: rd by3)
      next
        case b1
        then have "flip_frame_bit k frame =
            [p0, flip_bit (k mod 8) p1, crc8 crc8_table (?req @ [p0, p1]) 0]"
          by (simp add: flip_frame_bit_def fr)
        moreover have "crc8 crc8_table ((?req @ [p0]) @ flip_bit (k mod 8) p1 # []) 0
            \<noteq> crc8 crc8_table ((?req @ [p0]) @ p1 # []) 0"
          by (intro crc8_byte_changed flip_bit_changes) simp
        ultimately show ?thesis
          using eq by (simp add: rd by3)
      next
        case b2
        then have "flip_frame_bit k frame =
            [p0, p1, flip_bit (k mod 8) (crc8 crc8_table (?req @ [p0, p1]) 0)]"
          by (simp add: flip_frame_bit_def fr)
        moreover have "flip_bit (k mod 8) (crc8 crc8_table (?req @ [p0, p1]) 0)
            \<noteq> crc8 crc8_table (?req @ [p0, p1]) 0"
          by (rule flip_bit_changes) simp
        ultimately show ?thesis
          using eq by (simp add: rd by3)
      qed
    qed
    have n: "nat count + 1 = 3" by (simp add: c)
    show ?thesis
      unfolding n using good bad by (simp add: c p)
  qed
qed


text \<open>
  C1. For every address, register and count in {1, 2}, on a batch with room for the read and
  when the bus reports status 0: if the bytes received after the three request bytes are the
  payload followed by the CRC-8 of the request bytes and the payload, \<^verbatim>\<open>readRegister\<close> returns
  the payload value (the byte, or the big-endian pair); and if they are that frame with any one
  bit of payload or CRC inverted, \<^verbatim>\<open>readRegister\<close> returns \<^verbatim>\<open>-EFAULT\<close>, which is no payload
  value.
\<close>

theorem readRegister_decode:
  assumes "count = 1 \<or> count = 2"
    and "xfer_index s + 1 < MAX_XFER"
    and "length payload = nat count"
    and "bus_reply spi address reg count s = (0, rx, b)"
    and "frame = payload @ [crc8 crc8_table ([push_bit 1 address, reg, word_of_int count] @ payload) 0]"
  shows "(bytes rx (byte_index s + 3) (nat count + 1) = frame \<longrightarrow>
           fst (readRegister spi address reg count s) =
             (if count = 1 then uint (payload ! 0)
              else uint (payload ! 0) * 256 + uint (payload ! 1))) \<and>
         (\<forall>k < 8 * (nat count + 1).
            bytes rx (byte_index s + 3) (nat count + 1) = flip_frame_bit k frame \<longrightarrow>
              fst (readRegister spi address reg count s) = - EFAULT)"
  using assms by (rule readRegister_frame_cases)

text \<open>A two-byte read of 0x1234 from device 1, clean and with bit 1 of the second byte inverted.\<close>

theorem readRegister_decode_witness:
  "fst (readRegister (register_bus (\<lambda>d r. if r = 3 then 0x12 else 0x34) (\<lambda>f. f)) 1 3 2
          (bq_prepare_spi_message (bq_init_state ()))) = 0x1234 \<and>
   fst (readRegister (register_bus (\<lambda>d r. if r = 3 then 0x12 else 0x34) (flip_frame_bit 9)) 1 3 2
          (bq_prepare_spi_message (bq_init_state ()))) = - EFAULT"
proof -
  let ?s = "bq_prepare_spi_message (bq_init_state ())"
  let ?regs = "\<lambda>(d :: u8) (r :: u8). if r = 3 then 0x12 else (0x34 :: u8)"
  let ?frame = "[0x12, 0x34, crc8 crc8_table ([push_bit 1 1, 3, word_of_int 2] @ [0x12, 0x34]) 0] :: u8 list"
  have fr: "register_frame ?regs (push_bit 1 1) 3 (word_of_int 2) = ?frame"
    by (simp add: register_frame_def Let_def)
  have idx: "xfer_index ?s + 1 < MAX_XFER"
    by (simp add: bq_prepare_spi_message_def MAX_XFER_def)
  have g: "bytes (store_frame (rx_buff ?s) (byte_index ?s + 3) ?frame) (byte_index ?s + 3) (nat 2 + 1)
      = ?frame"
    by (rule bytes_store_frame) simp
  have b: "bytes (store_frame (rx_buff ?s) (byte_index ?s + 3) (flip_frame_bit 9 ?frame))
      (byte_index ?s + 3) (nat 2 + 1) = flip_frame_bit 9 ?frame"
    by (rule bytes_store_frame) (simp add: length_flip_frame_bit)
  have rg: "bus_reply (register_bus ?regs (\<lambda>f. f)) 1 3 2 ?s =
      (0, store_frame (rx_buff ?s) (byte_index ?s + 3) ?frame, bus ?s)"
    by (simp only: bus_reply_register_bus fr)
  have rb: "bus_reply (register_bus ?regs (flip_frame_bit 9)) 1 3 2 ?s =
      (0, store_frame (rx_buff ?s) (byte_index ?s + 3) (flip_frame_bit 9 ?frame), bus ?s)"
    by (simp only: bus_reply_register_bus fr)
  have "fst (readRegister (register_bus ?regs (\<lambda>f. f)) 1 3 2 ?s) = 0x1234"
    using readRegister_decode [OF _ idx _ rg, of "[0x12, 0x34]" ?frame] g
    by simp
  moreover have "fst (readRegister (register_bus ?regs (flip_frame_bit 9)) 1 3 2 ?s) = - EFAULT"
  proof -
    have "\<forall>k < 8 * (nat 2 + 1).
        bytes (store_frame (rx_buff ?s) (byte_index ?s + 3) (flip_frame_bit 9 ?frame))
          (byte_index ?s + 3) (nat 2 + 1) = flip_frame_bit k ?frame \<longrightarrow>
        fst (readRegister (register_bus ?regs (flip_frame_bit 9)) 1 3 2 ?s) = - EFAULT"
      by (rule conjunct2 [OF readRegister_decode [OF _ idx _ rb, of "[0x12, 0x34]" ?frame]])
        simp_all
    from this [rule_format, of 9] b show ?thesis by simp
  qed
  ultimately show ?thesis by simp
qed

section \<open>Telemetry aggregator: the data-ready poll\<close>

text \<open>
  A bus that also counts the batches it has executed: the state of the bus is paired with the
  number of calls of \<^verbatim>\<open>spi_sync\<close> so far.
\<close>

definition counting :: "'b spi_bus \<Rightarrow> (nat \<times> 'b) spi_bus" where
  "counting spi = (\<lambda>(n, b) xs tx rx.
     case spi b xs tx rx of (st, rx', b') \<Rightarrow> (st, rx', (Suc n, b')))"

lemma readRegister_state:
  assumes "count = 1 \<or> count = 2" and "xfer_index s + 1 < MAX_XFER"
  shows "snd (readRegister spi address reg count s) =
     (readRegister_queue address reg count (s\<lparr>xfer_index := xfer_index s + 1\<rparr>))
       \<lparr>rx_buff := fst (snd (bus_reply spi address reg count s)),
        bus := snd (snd (bus_reply spi address reg count s))\<rparr>"
proof -
  obtain st rx b where r: "bus_reply spi address reg count s = (st, rx, b)"
    by (cases "bus_reply spi address reg count s")
  from assms(1) show ?thesis
  proof
    assume "count = 1"
    then show ?thesis
      using readRegister_unfold_1 [OF assms(2), of spi address reg st rx b] r by simp
  next
    assume "count = 2"
    then show ?thesis
      using readRegister_unfold_2 [OF assms(2), of spi address reg st rx b] r by simp
  qed
qed

lemma prepare_room: "xfer_index (bq_prepare_spi_message s) + 1 < MAX_XFER"
  by (simp add: bq_prepare_spi_message_def MAX_XFER_def)

lemma bus_readRegister_queue:
  "bus (readRegister_queue address reg count s) = bus s"
  by (simp add: readRegister_queue_def Let_def)

lemma counting_read:
  assumes "count = 1 \<or> count = 2" and "xfer_index s + 1 < MAX_XFER"
  shows "fst (bus (snd (readRegister (counting spi) address reg count s))) = Suc (fst (bus s))"
  unfolding readRegister_state [OF assms]
  by (simp add: bus_reply_def counting_def Let_def bus_readRegister_queue split_beta)

lemma wait_never_ready:
  assumes never: "\<And>s'. fst (readRegister (counting spi) 1 DEVICE_STATUS 1
                      (bq_prepare_spi_message s')) AND DRDY = 0"
  shows "0 \<le> tries \<Longrightarrow> tries \<le> 6 \<Longrightarrow>
    \<exists>s'. get_voltages_wait (counting spi) tries s = (None, s') \<and>
      fst (bus s') = fst (bus s) + nat (7 - tries)"
proof (induction "nat (6 - tries)" arbitrary: tries s)
  case 0
  then have t: "tries = 6" by simp
  obtain temp s1 where r: "readRegister (counting spi) 1 DEVICE_STATUS 1
      (bq_prepare_spi_message s) = (temp, s1)"
    by (cases "readRegister (counting spi) 1 DEVICE_STATUS 1 (bq_prepare_spi_message s)")
  have "fst (bus s1) = Suc (fst (bus (bq_prepare_spi_message s)))"
    using counting_read [of 1 "bq_prepare_spi_message s" spi 1 DEVICE_STATUS] prepare_room [of s] r
    by simp
  then have "fst (bus s1) = fst (bus s) + 1"
    by (simp add: bq_prepare_spi_message_def)
  then show ?case
    by (subst get_voltages_wait.simps) (simp add: r t)
next
  case (Suc k)
  then have t: "tries < 6" "\<not> tries > 5" "k = nat (6 - (tries + 1))" by simp_all
  obtain temp s1 where r: "readRegister (counting spi) 1 DEVICE_STATUS 1
      (bq_prepare_spi_message s) = (temp, s1)"
    by (cases "readRegister (counting spi) 1 DEVICE_STATUS 1 (bq_prepare_spi_message s)")
  have "fst (bus s1) = Suc (fst (bus (bq_prepare_spi_message s)))"
    using counting_read [of 1 "bq_prepare_spi_message s" spi 1 DEVICE_STATUS] prepare_room [of s] r
    by simp
  then have b1: "fst (bus s1) = fst (bus s) + 1"
    by (simp add: bq_prepare_spi_message_def)
  have z: "temp AND DRDY = 0"
    using never [of s] r by simp
  obtain s' where s': "get_voltages_wait (counting spi) (tries + 1) s1 = (None, s')"
      "fst (bus s') = fst (bus s1) + nat (7 - (tries + 1))"
    using Suc.hyps(1) [OF t(3), of s1] Suc.prems t(1) by auto
  have "get_voltages_wait (counting spi) tries s = (None, s')"
    by (subst get_voltages_wait.simps) (simp add: r t(2) z s'(1))
  moreover have "fst (bus s') = fst (bus s) + nat (7 - tries)"
    using s'(2) b1 t(1) Suc.prems by (simp add: nat_diff_distrib)
  ultimately show ?case by blast
qed


lemma bus_reply_counting_register_bus:
  "bus_reply (counting (register_bus regs corrupt)) address reg count s =
     (0, store_frame (rx_buff s) (byte_index s + 3)
           (corrupt (register_frame regs (push_bit 1 address) reg (word_of_int count))),
      (Suc (fst (bus s)), snd (bus s)))"
  by (simp add: bus_reply_def counting_def register_bus_def readRegister_queue_def Let_def
        split_beta)

lemma readRegister_register_bus_1:
  assumes "xfer_index s + 1 < MAX_XFER"
  shows "fst (readRegister (register_bus regs (\<lambda>f. f)) address reg 1 s) =
           uint (regs (drop_bit 1 (push_bit 1 address)) reg)"
proof -
  let ?rx = "store_frame (rx_buff s) (byte_index s + 3)
               (register_frame regs (push_bit 1 address) reg 1)"
  have r: "bus_reply (register_bus regs (\<lambda>f. f)) address reg 1 s = (0, ?rx, bus s)"
    by (simp add: bus_reply_register_bus)
  show ?thesis
    using readRegister_unfold_1 [OF assms r]
    by (simp add: register_frame_def store_frame_def Let_def)
qed

lemma readRegister_counting_register_bus_1:
  assumes "xfer_index s + 1 < MAX_XFER"
  shows "fst (readRegister (counting (register_bus regs (\<lambda>f. f))) address reg 1 s) =
           uint (regs (drop_bit 1 (push_bit 1 address)) reg)"
proof -
  let ?rx = "store_frame (rx_buff s) (byte_index s + 3)
               (register_frame regs (push_bit 1 address) reg 1)"
  have rc: "bus_reply (counting (register_bus regs (\<lambda>f. f))) address reg 1 s =
      (0, ?rx, (Suc (fst (bus s)), snd (bus s)))"
    by (simp add: bus_reply_counting_register_bus)
  show ?thesis
    using readRegister_unfold_1 [OF assms rc]
    by (simp add: register_frame_def store_frame_def Let_def)
qed

lemma readRegister_register_bus_2:
  assumes "xfer_index s + 1 < MAX_XFER"
  shows "fst (readRegister (register_bus regs (\<lambda>f. f)) address reg 2 s) =
           uint (regs (drop_bit 1 (push_bit 1 address)) reg) * 256 +
           uint (regs (drop_bit 1 (push_bit 1 address)) (reg + 1))"
proof -
  let ?rx = "store_frame (rx_buff s) (byte_index s + 3)
               (register_frame regs (push_bit 1 address) reg 2)"
  have r: "bus_reply (register_bus regs (\<lambda>f. f)) address reg 2 s = (0, ?rx, bus s)"
    by (simp add: bus_reply_register_bus)
  show ?thesis
    using readRegister_unfold_2 [OF assms r]
    by (simp add: register_frame_def store_frame_def Let_def)
qed

lemma get_voltages_start:
  "get_voltages spi s =
     (let s1 = snd (writeRegister BROADCAST ADC_CONVERT AC_CONV (bq_prepare_spi_message s))
      in if fst (spi_sync spi s1) \<noteq> 0 then (0, [], snd (spi_sync spi s1))
         else (case get_voltages_wait spi 0 (snd (spi_sync spi s1)) of
                 (None, s') \<Rightarrow> (0, [], s')
               | (Some temp, s') \<Rightarrow> get_voltages_emit spi s'))"
  by (simp add: get_voltages_def Let_def split_beta)

lemma counting_sync:
  "fst (bus (snd (spi_sync (counting spi) s))) = Suc (fst (bus s))"
  by (simp add: spi_sync_def counting_def split_beta)

lemma bus_writeRegister: "bus (snd (writeRegister address reg data s)) = bus s"
  by (simp add: writeRegister_def Let_def)

lemma bus_prepare: "bus (bq_prepare_spi_message s) = bus s"
  by (simp add: bq_prepare_spi_message_def)

text \<open>
  One pass of the polling loop: the status read of device 1 on a fresh batch. \<open>polled spi k s\<close>
  is the state after \<open>k\<close> such passes from \<open>s\<close>, so the \<open>k\<close>-th poll of a run (counted from 0)
  is the pass made in that state.
\<close>

definition get_voltages_poll :: "'b spi_bus \<Rightarrow> 'b driver \<Rightarrow> int \<times> 'b driver" where
  "get_voltages_poll spi s = readRegister spi 1 DEVICE_STATUS 1 (bq_prepare_spi_message s)"

primrec polled :: "'b spi_bus \<Rightarrow> nat \<Rightarrow> 'b driver \<Rightarrow> 'b driver" where
  "polled spi 0 s = s"
| "polled spi (Suc k) s = snd (get_voltages_poll spi (polled spi k s))"

text \<open>
  A slow chain, for the example: its registers read 0 until it has executed ten batches, and 1
  from then on.
\<close>

definition slow_chain :: "nat spi_bus" where
  "slow_chain m xs tx rx =
     (case register_bus (\<lambda>d r. if 10 \<le> m then 1 else 0) (\<lambda>f. f) () xs tx rx of
        (st, rx', u) \<Rightarrow> (st, rx', Suc m))"

lemma polled_shift:
  "polled spi (Suc k) s = polled spi k (snd (get_voltages_poll spi s))"
  by (induction k) simp_all

lemma wait_gives_up:
  "0 \<le> tries \<Longrightarrow> tries \<le> 6 \<Longrightarrow>
   \<forall>k < nat (6 - tries).
      fst (get_voltages_poll (counting spi) (polled (counting spi) k s)) AND DRDY = 0 \<Longrightarrow>
   \<exists>s'. get_voltages_wait (counting spi) tries s = (None, s') \<and>
      fst (bus s') = fst (bus s) + nat (7 - tries)"
proof (induction "nat (6 - tries)" arbitrary: tries s)
  case 0
  then have t: "tries = 6" by simp
  define temp where "temp = fst (get_voltages_poll (counting spi) s)"
  define s1 where "s1 = snd (get_voltages_poll (counting spi) s)"
  have r: "readRegister (counting spi) 1 DEVICE_STATUS 1 (bq_prepare_spi_message s) = (temp, s1)"
    by (simp add: temp_def s1_def get_voltages_poll_def)
  have "fst (bus s1) = Suc (fst (bus (bq_prepare_spi_message s)))"
    using counting_read [of 1 "bq_prepare_spi_message s" spi 1 DEVICE_STATUS] prepare_room [of s] r
    by simp
  then have "fst (bus s1) = fst (bus s) + 1"
    by (simp add: bq_prepare_spi_message_def)
  then show ?case
    by (subst get_voltages_wait.simps) (simp add: r t)
next
  case (Suc n)
  then have t: "tries < 6" "\<not> tries > 5" "n = nat (6 - (tries + 1))" by simp_all
  define temp where "temp = fst (get_voltages_poll (counting spi) s)"
  define s1 where "s1 = snd (get_voltages_poll (counting spi) s)"
  have r: "readRegister (counting spi) 1 DEVICE_STATUS 1 (bq_prepare_spi_message s) = (temp, s1)"
    by (simp add: temp_def s1_def get_voltages_poll_def)
  have "fst (bus s1) = Suc (fst (bus (bq_prepare_spi_message s)))"
    using counting_read [of 1 "bq_prepare_spi_message s" spi 1 DEVICE_STATUS] prepare_room [of s] r
    by simp
  then have b1: "fst (bus s1) = fst (bus s) + 1"
    by (simp add: bq_prepare_spi_message_def)
  have "0 < nat (6 - tries)" using t(1) by simp
  then have z: "temp AND DRDY = 0"
    using Suc.prems(3) [rule_format, of 0] by (simp add: temp_def)
  have rest: "\<forall>k < nat (6 - (tries + 1)).
      fst (get_voltages_poll (counting spi) (polled (counting spi) k s1)) AND DRDY = 0"
  proof (intro allI impI)
    fix k
    assume "k < nat (6 - (tries + 1))"
    then have "Suc k < nat (6 - tries)" by simp
    from Suc.prems(3) [rule_format, OF this]
    show "fst (get_voltages_poll (counting spi) (polled (counting spi) k s1)) AND DRDY = 0"
      by (simp only: polled_shift s1_def)
  qed
  obtain s' where s': "get_voltages_wait (counting spi) (tries + 1) s1 = (None, s')"
      "fst (bus s') = fst (bus s1) + nat (7 - (tries + 1))"
    using Suc.hyps(1) [OF t(3) _ _ rest] Suc.prems(1) t(1) by auto
  have "get_voltages_wait (counting spi) tries s = (None, s')"
    by (subst get_voltages_wait.simps) (simp add: r t(2) z s'(1))
  moreover have "fst (bus s') = fst (bus s) + nat (7 - tries)"
    using s'(2) b1 t(1) Suc.prems by (simp add: nat_diff_distrib)
  ultimately show ?case by blast
qed

text \<open>
  C5, as the code has it. Let the run's polls be the status reads that follow the conversion
  start. If each of the first six polls returns a status value (not an error code) with the
  data-ready bit clear, \<^verbatim>\<open>get_voltages\<close> returns 0 and stores nothing, and the test
  \<^verbatim>\<open>tries++ > 5\<close> has let a seventh poll through, whose result is not looked at: when the
  conversion start succeeds the bus has executed 1 + 7 batches (one for the start, seven
  polls); when the start fails it has executed the one. Nothing is assumed about what the
  chain would answer after these polls.
\<close>

theorem get_voltages_conversion_timeout:
  assumes "s2 = snd (spi_sync (counting spi)
                  (snd (writeRegister BROADCAST ADC_CONVERT AC_CONV (bq_prepare_spi_message s))))"
    and "\<forall>k < 6. 0 \<le> fst (get_voltages_poll (counting spi) (polled (counting spi) k s2)) \<and>
                  fst (get_voltages_poll (counting spi) (polled (counting spi) k s2)) AND DRDY = 0"
  shows "fst (get_voltages (counting spi) s) = 0 \<and>
         fst (snd (get_voltages (counting spi) s)) = [] \<and>
         fst (bus (snd (snd (get_voltages (counting spi) s)))) =
           fst (bus s) +
           (if fst (spi_sync (counting spi)
                     (snd (writeRegister BROADCAST ADC_CONVERT AC_CONV (bq_prepare_spi_message s))))
                 \<noteq> 0
            then 1 else 1 + 7)"
proof -
  let ?s1 = "snd (writeRegister BROADCAST ADC_CONVERT AC_CONV (bq_prepare_spi_message s))"
  have b2: "fst (bus s2) = fst (bus s) + 1"
    by (simp add: assms(1) counting_sync bus_writeRegister bus_prepare)
  have "\<forall>k < nat (6 - 0).
      fst (get_voltages_poll (counting spi) (polled (counting spi) k s2)) AND DRDY = 0"
    using assms(2) by simp
  from wait_gives_up [OF _ _ this]
  obtain s' where w: "get_voltages_wait (counting spi) 0 s2 = (None, s')"
      "fst (bus s') = fst (bus s2) + nat (7 - 0)"
    by auto
  show ?thesis
  proof (cases "fst (spi_sync (counting spi) ?s1) \<noteq> 0")
    case True
    then show ?thesis
      using b2 by (simp add: get_voltages_start Let_def assms(1) [symmetric])
  next
    case False
    then show ?thesis
      using b2 w by (simp add: get_voltages_start Let_def assms(1) [symmetric])
  qed
qed


lemma slow_chain_poll:
  "fst (get_voltages_poll (counting slow_chain) s) = (if 10 \<le> snd (bus s) then 1 else 0)"
  "bus (snd (get_voltages_poll (counting slow_chain) s)) = (Suc (fst (bus s)), Suc (snd (bus s)))"
proof -
  let ?p = "bq_prepare_spi_message s"
  let ?regs = "\<lambda>(d :: u8) (r :: u8). if 10 \<le> snd (bus s) then 1 else (0 :: u8)"
  have r: "bus_reply (counting slow_chain) 1 DEVICE_STATUS 1 ?p =
      (0, store_frame (rx_buff ?p) (byte_index ?p + 3)
            (register_frame ?regs (push_bit 1 1) DEVICE_STATUS 1),
       (Suc (fst (bus s)), Suc (snd (bus s))))"
    by (simp add: bus_reply_def counting_def slow_chain_def register_bus_def
          readRegister_queue_def Let_def split_beta bq_prepare_spi_message_def)
  show "fst (get_voltages_poll (counting slow_chain) s) = (if 10 \<le> snd (bus s) then 1 else 0)"
    unfolding get_voltages_poll_def
    using readRegister_unfold_1 [OF prepare_room r]
    by (simp add: register_frame_def store_frame_def Let_def)
  have one: "1 = (1 :: int) \<or> 1 = (2 :: int)" by simp
  show "bus (snd (get_voltages_poll (counting slow_chain) s)) =
      (Suc (fst (bus s)), Suc (snd (bus s)))"
    unfolding get_voltages_poll_def readRegister_state [OF one prepare_room]
    by (simp add: r)
qed

lemma slow_chain_polled:
  "bus (polled (counting slow_chain) k s) = (fst (bus s) + k, snd (bus s) + k)"
  by (induction k) (simp_all add: slow_chain_poll(2))

text \<open>
  The slow chain would read ready at its tenth poll; the aggregator has given up after the
  seventh, with the empty result and 1 + 7 batches.
\<close>

theorem get_voltages_conversion_timeout_witness:
  "fst (get_voltages (counting slow_chain) (bq_init_state (0, 0))) = 0 \<and>
   fst (snd (get_voltages (counting slow_chain) (bq_init_state (0, 0)))) = [] \<and>
   fst (bus (snd (snd (get_voltages (counting slow_chain) (bq_init_state (0, 0)))))) = 1 + 7 \<and>
   fst (get_voltages_poll (counting slow_chain)
          (polled (counting slow_chain) 9
             (snd (spi_sync (counting slow_chain)
                (snd (writeRegister BROADCAST ADC_CONVERT AC_CONV
                   (bq_prepare_spi_message (bq_init_state (0, 0))))))))) = 1"
proof -
  let ?s1 = "snd (writeRegister BROADCAST ADC_CONVERT AC_CONV
               (bq_prepare_spi_message (bq_init_state (0 :: nat, 0 :: nat))))"
  let ?s2 = "snd (spi_sync (counting slow_chain) ?s1)"
  have st: "fst (spi_sync (counting slow_chain) ?s1) = 0"
    by (simp add: spi_sync_def counting_def slow_chain_def register_bus_def split_beta
          split: option.splits)
  have b2: "bus ?s2 = (1, 1)"
    by (simp add: spi_sync_def counting_def slow_chain_def register_bus_def split_beta
          bus_writeRegister bus_prepare bq_init_state_def split: option.splits)
  have pk: "fst (get_voltages_poll (counting slow_chain) (polled (counting slow_chain) k ?s2)) =
      (if 9 \<le> k then 1 else 0)" for k
    by (simp add: slow_chain_poll(1) slow_chain_polled b2)
  have h: "\<forall>k < 6. 0 \<le> fst (get_voltages_poll (counting slow_chain)
                         (polled (counting slow_chain) k ?s2)) \<and>
      fst (get_voltages_poll (counting slow_chain) (polled (counting slow_chain) k ?s2))
        AND DRDY = 0"
    by (simp add: pk)
  have b0: "fst (bus (bq_init_state (0 :: nat, 0 :: nat))) = 0"
    by (simp add: bq_init_state_def)
  show ?thesis
    using get_voltages_conversion_timeout [OF refl h] st b0 pk [of 9]
    by simp
qed

text \<open>A chain whose registers all read 0, counted: the data-ready bit is never set.\<close>

definition never_ready_bus :: "(nat \<times> unit) spi_bus" where
  "never_ready_bus = counting (register_bus (\<lambda>d r. 0) (\<lambda>f. f))"

lemma never_ready_bus_read:
  "fst (readRegister never_ready_bus 1 DEVICE_STATUS 1 (bq_prepare_spi_message s')) AND DRDY = 0"
  unfolding never_ready_bus_def
  by (simp add: readRegister_counting_register_bus_1 [OF prepare_room])

lemma never_ready_bus_start:
  "fst (spi_sync never_ready_bus s) = 0"
  by (simp add: spi_sync_def never_ready_bus_def counting_def register_bus_def
        split_beta split: option.splits)

text \<open>
  On the chain that is never ready the aggregator has executed 1 + 7 batches when it returns:
  the polling reads are not six.
\<close>

theorem get_voltages_six_polls_counterexample:
  "\<not> (fst (bus (snd (snd (get_voltages never_ready_bus (bq_init_state (0, ())))))) = 1 + 6)"
proof -
  let ?s2 = "snd (spi_sync never_ready_bus (snd (writeRegister BROADCAST ADC_CONVERT AC_CONV
           (bq_prepare_spi_message (bq_init_state (0, ()))))))"
  have "\<exists>s'. get_voltages_wait never_ready_bus 0 ?s2 = (None, s') \<and>
      fst (bus s') = fst (bus ?s2) + nat (7 - 0)"
    unfolding never_ready_bus_def
    by (rule wait_never_ready) (simp_all add: never_ready_bus_read [unfolded never_ready_bus_def])
  then obtain s' where w: "get_voltages_wait never_ready_bus 0 ?s2 = (None, s')"
      "fst (bus s') = fst (bus ?s2) + 7"
    by auto
  have "fst (bus ?s2) = 1"
    by (simp add: never_ready_bus_def counting_sync bus_writeRegister bus_prepare
          bq_init_state_def)
  then have "fst (bus (snd (snd (get_voltages never_ready_bus (bq_init_state (0, ())))))) = 8"
    using w never_ready_bus_start by (simp add: get_voltages_start Let_def)
  then show ?thesis by simp
qed

section \<open>Telemetry aggregator: the emission loops\<close>

text \<open>
  A chain that answers every register read in a known way: on a bus whose state satisfies
  \<open>I\<close>, a read of \<open>c\<close> bytes from register \<open>r\<close> of address \<open>a\<close>, issued on a batch with
  room for it, returns \<open>val a r c\<close> and leaves the bus in a state that satisfies \<open>I\<close> again.
\<close>

definition reads :: "'b spi_bus \<Rightarrow> ('b \<Rightarrow> bool) \<Rightarrow> (u8 \<Rightarrow> u8 \<Rightarrow> int \<Rightarrow> int) \<Rightarrow> bool" where
  "reads spi I val =
     (\<forall>a r c s. I (bus s) \<and> xfer_index s + 1 < MAX_XFER \<and> (c = 1 \<or> c = 2) \<longrightarrow>
        fst (readRegister spi a r c s) = val a r c \<and>
        I (bus (snd (readRegister spi a r c s))))"

lemma xfer_index_readRegister:
  assumes "count = 1 \<or> count = 2" and "xfer_index s + 1 < MAX_XFER"
  shows "xfer_index (snd (readRegister spi address reg count s)) = xfer_index s + 1"
  unfolding readRegister_state [OF assms]
  by (simp add: readRegister_queue_def Let_def)

lemma reads_step:
  assumes "reads spi I val" and "I (bus s)" and "xfer_index s + 1 < MAX_XFER"
    and "c = 1 \<or> c = 2"
  shows "readRegister spi a r c s = (val a r c, snd (readRegister spi a r c s))"
    and "I (bus (snd (readRegister spi a r c s)))"
    and "xfer_index (snd (readRegister spi a r c s)) = xfer_index s + 1"
    and "config (snd (readRegister spi a r c s)) = config s"
proof -
  have "fst (readRegister spi a r c s) = val a r c"
    using assms by (auto simp: reads_def)
  then show "readRegister spi a r c s = (val a r c, snd (readRegister spi a r c s))"
    by (simp add: prod_eq_iff)
  show "I (bus (snd (readRegister spi a r c s)))"
    using assms by (auto simp: reads_def)
  show "xfer_index (snd (readRegister spi a r c s)) = xfer_index s + 1"
    using assms(3,4) by (simp add: xfer_index_readRegister)
  show "config (snd (readRegister spi a r c s)) = config s"
    by (rule config_readRegister)
qed

lemma reads_fresh:
  assumes "reads spi I val" and "I (bus s)" and "c = 1 \<or> c = 2"
  shows "readRegister spi a r c (bq_prepare_spi_message s) =
           (val a r c, snd (readRegister spi a r c (bq_prepare_spi_message s)))"
    and "I (bus (snd (readRegister spi a r c (bq_prepare_spi_message s))))"
    and "xfer_index (snd (readRegister spi a r c (bq_prepare_spi_message s))) = 0"
    and "config (snd (readRegister spi a r c (bq_prepare_spi_message s))) = config s"
proof -
  have i: "I (bus (bq_prepare_spi_message s))" using assms(2) by (simp add: bus_prepare)
  have x: "xfer_index (bq_prepare_spi_message s) = - 1"
    by (simp add: bq_prepare_spi_message_def)
  note st = reads_step [OF assms(1) i prepare_room assms(3), of a r]
  show "readRegister spi a r c (bq_prepare_spi_message s) =
           (val a r c, snd (readRegister spi a r c (bq_prepare_spi_message s)))"
    by (rule st(1))
  show "I (bus (snd (readRegister spi a r c (bq_prepare_spi_message s))))"
    by (rule st(2))
  show "xfer_index (snd (readRegister spi a r c (bq_prepare_spi_message s))) = 0"
    using st(3) x by simp
  show "config (snd (readRegister spi a r c (bq_prepare_spi_message s))) = config s"
    using st(4) by (simp add: config_prepare)
qed

lemma get_voltages_cells_reads:
  "reads spi I val \<Longrightarrow> I (bus s) \<Longrightarrow> 0 \<le> i \<Longrightarrow>
    fst (get_voltages_cells spi i p s) =
      p @ map (\<lambda>k. word_of_int
                 ((val (word_of_int (chip (cells s k))) (word_of_int (index (cells s k))) 2 * 6250)
                    sdiv 327660))
            [nat i ..< nat (total_cell_count s)] \<and>
    I (bus (snd (get_voltages_cells spi i p s))) \<and>
    config (snd (get_voltages_cells spi i p s)) = config s"
proof (induction spi i p s rule: get_voltages_cells.induct)
  case (1 spi i p s)
  show ?case
  proof (cases "i < total_cell_count s")
    case False
    then have "get_voltages_cells spi i p s = (p, s)"
      by (subst get_voltages_cells.simps) simp
    then show ?thesis
      using False "1.prems" by simp
  next
    case True
    let ?a = "word_of_int (chip (cells s (nat i))) :: u8"
    let ?r = "word_of_int (index (cells s (nat i))) :: u8"
    define s' where "s' = snd (readRegister spi ?a ?r 2 (bq_prepare_spi_message s))"
    have two: "2 = (1 :: int) \<or> 2 = (2 :: int)" by simp
    note rf = reads_fresh [OF "1.prems"(1,2) two, of ?a ?r, folded s'_def]
    have r: "readRegister spi ?a ?r 2 (bq_prepare_spi_message s) = (val ?a ?r 2, s')"
      by (rule rf(1))
    have s': "I (bus s')" "config s' = config s"
      by (rule rf(2), rule rf(4))
    have c: "cells s' = cells s" "total_cell_count s' = total_cell_count s"
      using s'(2) by (simp_all add: config_def)
    let ?p' = "p @ [word_of_int ((val ?a ?r 2 * 6250) sdiv 327660)]"
    have ih: "fst (get_voltages_cells spi (i + 1) ?p' s') =
        ?p' @ map (\<lambda>k. word_of_int
                 ((val (word_of_int (chip (cells s' k))) (word_of_int (index (cells s' k))) 2 * 6250)
                    sdiv 327660))
            [nat (i + 1) ..< nat (total_cell_count s')] \<and>
      I (bus (snd (get_voltages_cells spi (i + 1) ?p' s'))) \<and>
      config (snd (get_voltages_cells spi (i + 1) ?p' s')) = config s'"
      using "1.IH" [OF True r [symmetric] "1.prems"(1) s'(1)] "1.prems"(3) by simp
    have u: "[nat i ..< nat (total_cell_count s)] = nat i # [nat (i + 1) ..< nat (total_cell_count s)]"
      using True "1.prems"(3) by (simp add: upt_conv_Cons nat_add_distrib)
    have step: "get_voltages_cells spi i p s = get_voltages_cells spi (i + 1) ?p' s'"
      using True by (subst get_voltages_cells.simps) (simp add: r)
    show ?thesis
      unfolding step using ih by (simp add: c u s'(2))
  qed
qed


lemma get_voltages_device_reads:
  assumes "reads spi I val" and "I (bus s)"
  shows "fst (get_voltages_device spi i p s) =
      p @ [word_of_int (cells_per_device s i),
           word_of_int ((val (word_of_int i) TEMPERATURE1 2 - 2048) sdiv 120),
           word_of_int ((val (word_of_int i) TEMPERATURE2 2 - 2048) sdiv 120),
           word_of_int (val (word_of_int i) DEVICE_STATUS 1),
           word_of_int (val (word_of_int i) FAULT_STATUS 1),
           word_of_int (val (word_of_int i) ALERT_STATUS 1),
           word_of_int (val (word_of_int i) CUV_FAULT 1),
           word_of_int (val (word_of_int i) COV_FAULT 1)]"
    and "I (bus (snd (get_voltages_device spi i p s)))"
proof -
  let ?a = "word_of_int i :: u8"
  have two: "2 = (1 :: int) \<or> 2 = (2 :: int)" and one: "1 = (1 :: int) \<or> 1 = (2 :: int)"
    by simp_all
  define s1 where "s1 = snd (readRegister spi ?a TEMPERATURE1 2 (bq_prepare_spi_message s))"
  note f1 = reads_fresh [OF assms two, of ?a TEMPERATURE1, folded s1_def]
  define s2 where "s2 = snd (readRegister spi ?a TEMPERATURE2 2 (bq_prepare_spi_message s1))"
  note f2 = reads_fresh [OF assms(1) f1(2) two, of ?a TEMPERATURE2, folded s2_def]
  define s3 where "s3 = snd (readRegister spi ?a DEVICE_STATUS 1 (bq_prepare_spi_message s2))"
  note f3 = reads_fresh [OF assms(1) f2(2) one, of ?a DEVICE_STATUS, folded s3_def]
  have x3: "xfer_index s3 + 1 < MAX_XFER" using f3(3) by (simp add: MAX_XFER_def)
  define s4 where "s4 = snd (readRegister spi ?a FAULT_STATUS 1 s3)"
  note f4 = reads_step [OF assms(1) f3(2) x3 one, of ?a FAULT_STATUS, folded s4_def]
  have x4: "xfer_index s4 + 1 < MAX_XFER" using f4(3) f3(3) by (simp add: MAX_XFER_def)
  define s5 where "s5 = snd (readRegister spi ?a ALERT_STATUS 1 s4)"
  note f5 = reads_step [OF assms(1) f4(2) x4 one, of ?a ALERT_STATUS, folded s5_def]
  have x5: "xfer_index s5 + 1 < MAX_XFER" using f5(3) f4(3) f3(3) by (simp add: MAX_XFER_def)
  define s6 where "s6 = snd (readRegister spi ?a CUV_FAULT 1 s5)"
  note f6 = reads_step [OF assms(1) f5(2) x5 one, of ?a CUV_FAULT, folded s6_def]
  have x6: "xfer_index s6 + 1 < MAX_XFER"
    using f6(3) f5(3) f4(3) f3(3) by (simp add: MAX_XFER_def)
  define s7 where "s7 = snd (readRegister spi ?a COV_FAULT 1 s6)"
  note f7 = reads_step [OF assms(1) f6(2) x6 one, of ?a COV_FAULT, folded s7_def]
  have eq: "get_voltages_device spi i p s =
      (p @ [word_of_int (cells_per_device s i),
           word_of_int ((val ?a TEMPERATURE1 2 - 2048) sdiv 120),
           word_of_int ((val ?a TEMPERATURE2 2 - 2048) sdiv 120),
           word_of_int (val ?a DEVICE_STATUS 1),
           word_of_int (val ?a FAULT_STATUS 1),
           word_of_int (val ?a ALERT_STATUS 1),
           word_of_int (val ?a CUV_FAULT 1),
           word_of_int (val ?a COV_FAULT 1)], s7)"
    by (simp add: get_voltages_device_def Let_def f1(1) f2(1) f3(1) f4(1) f5(1) f6(1) f7(1))
  show "fst (get_voltages_device spi i p s) =
      p @ [word_of_int (cells_per_device s i),
           word_of_int ((val (word_of_int i) TEMPERATURE1 2 - 2048) sdiv 120),
           word_of_int ((val (word_of_int i) TEMPERATURE2 2 - 2048) sdiv 120),
           word_of_int (val (word_of_int i) DEVICE_STATUS 1),
           word_of_int (val (word_of_int i) FAULT_STATUS 1),
           word_of_int (val (word_of_int i) ALERT_STATUS 1),
           word_of_int (val (word_of_int i) CUV_FAULT 1),
           word_of_int (val (word_of_int i) COV_FAULT 1)]"
    by (simp add: eq)
  show "I (bus (snd (get_voltages_device spi i p s)))"
    using f7(2) by (simp add: eq)
qed


text \<open>
  The eight bytes that the aggregator emits for device \<open>i\<close>, and the voltage byte that it emits
  for entry \<open>k\<close> of the cell table, when the reads return \<open>val\<close>.
\<close>

definition device_bytes :: "(int \<Rightarrow> int) \<Rightarrow> (u8 \<Rightarrow> u8 \<Rightarrow> int \<Rightarrow> int) \<Rightarrow> int \<Rightarrow> u8 list" where
  "device_bytes cpd val i =
     [word_of_int (cpd i),
      word_of_int ((val (word_of_int i) TEMPERATURE1 2 - 2048) sdiv 120),
      word_of_int ((val (word_of_int i) TEMPERATURE2 2 - 2048) sdiv 120),
      word_of_int (val (word_of_int i) DEVICE_STATUS 1),
      word_of_int (val (word_of_int i) FAULT_STATUS 1),
      word_of_int (val (word_of_int i) ALERT_STATUS 1),
      word_of_int (val (word_of_int i) CUV_FAULT 1),
      word_of_int (val (word_of_int i) COV_FAULT 1)]"

definition voltage_bytes :: "(nat \<Rightarrow> cell) \<Rightarrow> (u8 \<Rightarrow> u8 \<Rightarrow> int \<Rightarrow> int) \<Rightarrow> nat \<Rightarrow> u8" where
  "voltage_bytes cs val k =
     word_of_int ((val (word_of_int (chip (cs k))) (word_of_int (index (cs k))) 2 * 6250)
                    sdiv 327660)"

lemma get_voltages_devices_reads:
  "reads spi I val \<Longrightarrow> I (bus s) \<Longrightarrow>
    fst (get_voltages_devices spi i p s) =
      p @ concat (map (device_bytes (cells_per_device s) val) [i .. devices_used s]) \<and>
    I (bus (snd (get_voltages_devices spi i p s))) \<and>
    config (snd (get_voltages_devices spi i p s)) = config s"
proof (induction spi i p s rule: get_voltages_devices.induct)
  case (1 spi i p s)
  show ?case
  proof (cases "i < devices_used s + 1")
    case False
    then have "get_voltages_devices spi i p s = (p, s)"
      by (subst get_voltages_devices.simps) simp
    then show ?thesis
      using False "1.prems" by simp
  next
    case True
    define p' where "p' = fst (get_voltages_device spi i p s)"
    define s' where "s' = snd (get_voltages_device spi i p s)"
    have r: "get_voltages_device spi i p s = (p', s')"
      by (simp add: p'_def s'_def)
    have p': "p' = p @ device_bytes (cells_per_device s) val i"
      unfolding p'_def device_bytes_def by (rule get_voltages_device_reads(1) [OF "1.prems"])
    have i': "I (bus s')"
      unfolding s'_def by (rule get_voltages_device_reads(2) [OF "1.prems"])
    have c': "config s' = config s"
      unfolding s'_def by (rule config_get_voltages_device)
    then have c: "cells_per_device s' = cells_per_device s" "devices_used s' = devices_used s"
      by (simp_all add: config_def)
    have ih: "fst (get_voltages_devices spi (i + 1) p' s') =
        p' @ concat (map (device_bytes (cells_per_device s') val) [i + 1 .. devices_used s']) \<and>
      I (bus (snd (get_voltages_devices spi (i + 1) p' s'))) \<and>
      config (snd (get_voltages_devices spi (i + 1) p' s')) = config s'"
      by (rule "1.IH" [OF True r [symmetric] "1.prems"(1) i'])
    have u: "[i .. devices_used s] = i # [i + 1 .. devices_used s]"
      using True by (simp add: upto_rec1)
    have step: "get_voltages_devices spi i p s = get_voltages_devices spi (i + 1) p' s'"
      using True by (subst get_voltages_devices.simps) (simp add: r)
    show ?thesis
      unfolding step using ih by (simp add: c u p' c')
  qed
qed

lemma get_voltages_emit_reads:
  assumes "reads spi I val" and "I (bus s)"
  shows "fst (snd (get_voltages_emit spi s)) =
      ([word_of_int (total_cell_count s)] @
       map (voltage_bytes (cells s) val) [0 ..< nat (total_cell_count s)] @
       [word_of_int (devices_used s)] @
       concat (map (device_bytes (cells_per_device s) val) [1 .. devices_used s])) @
      [crc8 crc8_table
         ([word_of_int (total_cell_count s)] @
          map (voltage_bytes (cells s) val) [0 ..< nat (total_cell_count s)] @
          [word_of_int (devices_used s)] @
          concat (map (device_bytes (cells_per_device s) val) [1 .. devices_used s])) 0]"
    and "fst (get_voltages_emit spi s) = int (length (fst (snd (get_voltages_emit spi s))))"
proof -
  let ?p0 = "[word_of_int (total_cell_count s)] :: u8 list"
  let ?s1 = "snd (get_voltages_cells spi 0 ?p0 s)"
  have c1: "fst (get_voltages_cells spi 0 ?p0 s) =
      ?p0 @ map (voltage_bytes (cells s) val) [0 ..< nat (total_cell_count s)]"
    "I (bus ?s1)" "config ?s1 = config s"
    using get_voltages_cells_reads [OF assms, of 0 ?p0] by (simp_all add: voltage_bytes_def)
  have k1: "devices_used ?s1 = devices_used s" "cells_per_device ?s1 = cells_per_device s"
    using c1(3) by (simp_all add: config_def)
  let ?p1 = "fst (get_voltages_cells spi 0 ?p0 s) @ [word_of_int (devices_used s)]"
  have c2: "fst (get_voltages_devices spi 1 ?p1 ?s1) =
      ?p1 @ concat (map (device_bytes (cells_per_device s) val) [1 .. devices_used s])"
    using get_voltages_devices_reads [OF assms(1) c1(2), of 1 ?p1] by (simp add: k1)
  show "fst (snd (get_voltages_emit spi s)) =
      ([word_of_int (total_cell_count s)] @
       map (voltage_bytes (cells s) val) [0 ..< nat (total_cell_count s)] @
       [word_of_int (devices_used s)] @
       concat (map (device_bytes (cells_per_device s) val) [1 .. devices_used s])) @
      [crc8 crc8_table
         ([word_of_int (total_cell_count s)] @
          map (voltage_bytes (cells s) val) [0 ..< nat (total_cell_count s)] @
          [word_of_int (devices_used s)] @
          concat (map (device_bytes (cells_per_device s) val) [1 .. devices_used s])) 0]"
    by (simp only: get_voltages_emit_def Let_def split_beta fst_conv snd_conv k1 c2)
      (simp add: c1(1))
  show "fst (get_voltages_emit spi s) = int (length (fst (snd (get_voltages_emit spi s))))"
    by (simp add: get_voltages_emit_def Let_def split_beta)
qed


lemma get_voltages_cells_shape:
  "(\<exists>vs. fst (get_voltages_cells spi i p s) = p @ vs \<and>
         length vs = nat (total_cell_count s - i)) \<and>
   config (snd (get_voltages_cells spi i p s)) = config s"
proof (induction spi i p s rule: get_voltages_cells.induct)
  case (1 spi i p s)
  show ?case
  proof (cases "i < total_cell_count s")
    case False
    then have "get_voltages_cells spi i p s = (p, s)"
      by (subst get_voltages_cells.simps) simp
    then show ?thesis
      using False by simp
  next
    case True
    let ?a = "word_of_int (chip (cells s (nat i))) :: u8"
    let ?r = "word_of_int (index (cells s (nat i))) :: u8"
    define temp where "temp = fst (readRegister spi ?a ?r 2 (bq_prepare_spi_message s))"
    define s' where "s' = snd (readRegister spi ?a ?r 2 (bq_prepare_spi_message s))"
    have r: "readRegister spi ?a ?r 2 (bq_prepare_spi_message s) = (temp, s')"
      by (simp add: temp_def s'_def)
    have c': "config s' = config s"
      unfolding s'_def by (simp add: config_readRegister config_prepare)
    then have c: "total_cell_count s' = total_cell_count s"
      by (simp add: config_def)
    let ?b = "word_of_int ((temp * 6250) sdiv 327660) :: u8"
    from "1.IH" [OF True r [symmetric]]
    obtain vs where vs: "fst (get_voltages_cells spi (i + 1) (p @ [?b]) s') = (p @ [?b]) @ vs"
        "length vs = nat (total_cell_count s' - (i + 1))"
      and k: "config (snd (get_voltages_cells spi (i + 1) (p @ [?b]) s')) = config s'"
      by blast
    have step: "get_voltages_cells spi i p s = get_voltages_cells spi (i + 1) (p @ [?b]) s'"
      using True by (subst get_voltages_cells.simps) (simp add: r)
    have "fst (get_voltages_cells spi i p s) = p @ (?b # vs)"
      by (simp add: step vs(1))
    moreover have "length (?b # vs) = nat (total_cell_count s - i)"
      using vs(2) True by (simp add: c)
    ultimately show ?thesis
      using k c' unfolding step by metis
  qed
qed

lemma get_voltages_device_shape:
  "\<exists>ds. fst (get_voltages_device spi i p s) = p @ ds \<and> length ds = 8"
  by (simp add: get_voltages_device_def Let_def split_beta)

lemma get_voltages_devices_shape:
  "(\<exists>ds. fst (get_voltages_devices spi i p s) = p @ ds \<and>
         length ds = 8 * nat (devices_used s + 1 - i)) \<and>
   config (snd (get_voltages_devices spi i p s)) = config s"
proof (induction spi i p s rule: get_voltages_devices.induct)
  case (1 spi i p s)
  show ?case
  proof (cases "i < devices_used s + 1")
    case False
    then have "get_voltages_devices spi i p s = (p, s)"
      by (subst get_voltages_devices.simps) simp
    then show ?thesis
      using False by simp
  next
    case True
    define p' where "p' = fst (get_voltages_device spi i p s)"
    define s' where "s' = snd (get_voltages_device spi i p s)"
    have r: "get_voltages_device spi i p s = (p', s')"
      by (simp add: p'_def s'_def)
    obtain d where d: "p' = p @ d" "length d = 8"
      using get_voltages_device_shape [of spi i p s] unfolding p'_def by blast
    have c': "config s' = config s"
      unfolding s'_def by (rule config_get_voltages_device)
    then have c: "devices_used s' = devices_used s"
      by (simp add: config_def)
    from "1.IH" [OF True r [symmetric]]
    obtain ds where ds: "fst (get_voltages_devices spi (i + 1) p' s') = p' @ ds"
        "length ds = 8 * nat (devices_used s' + 1 - (i + 1))"
      and k: "config (snd (get_voltages_devices spi (i + 1) p' s')) = config s'"
      by blast
    have step: "get_voltages_devices spi i p s = get_voltages_devices spi (i + 1) p' s'"
      using True by (subst get_voltages_devices.simps) (simp add: r)
    have "fst (get_voltages_devices spi i p s) = p @ (d @ ds)"
      using ds(1) by (simp add: step d(1))
    moreover have "length (d @ ds) = 8 * nat (devices_used s + 1 - i)"
      using ds(2) d(2) True by (simp add: c)
    ultimately show ?thesis
      using k c' unfolding step by metis
  qed
qed

lemma get_voltages_emit_shape:
  "\<exists>vs ds. length vs = nat (total_cell_count s) \<and> length ds = 8 * nat (devices_used s) \<and>
     fst (snd (get_voltages_emit spi s)) =
       ([word_of_int (total_cell_count s)] @ vs @ [word_of_int (devices_used s)] @ ds) @
       [crc8 crc8_table
          ([word_of_int (total_cell_count s)] @ vs @ [word_of_int (devices_used s)] @ ds) 0] \<and>
     fst (get_voltages_emit spi s) = 2 + int (length vs) + int (length ds) + 1"
proof -
  let ?p0 = "[word_of_int (total_cell_count s)] :: u8 list"
  let ?s1 = "snd (get_voltages_cells spi 0 ?p0 s)"
  obtain vs where vs: "fst (get_voltages_cells spi 0 ?p0 s) = ?p0 @ vs"
      "length vs = nat (total_cell_count s - 0)"
    using get_voltages_cells_shape [of spi 0 ?p0 s] by blast
  have "config ?s1 = config s"
    using get_voltages_cells_shape [of spi 0 ?p0 s] by blast
  then have k1: "devices_used ?s1 = devices_used s"
    by (simp add: config_def)
  let ?p1 = "fst (get_voltages_cells spi 0 ?p0 s) @ [word_of_int (devices_used s)]"
  obtain ds where ds: "fst (get_voltages_devices spi 1 ?p1 ?s1) = ?p1 @ ds"
      "length ds = 8 * nat (devices_used ?s1 + 1 - 1)"
    using get_voltages_devices_shape [of spi 1 ?p1 ?s1] by blast
  have "fst (snd (get_voltages_emit spi s)) =
       ([word_of_int (total_cell_count s)] @ vs @ [word_of_int (devices_used s)] @ ds) @
       [crc8 crc8_table
          ([word_of_int (total_cell_count s)] @ vs @ [word_of_int (devices_used s)] @ ds) 0]"
    by (simp only: get_voltages_emit_def Let_def split_beta fst_conv snd_conv k1 ds(1))
      (simp add: vs(1))
  moreover have "fst (get_voltages_emit spi s) = 2 + int (length vs) + int (length ds) + 1"
    by (simp only: get_voltages_emit_def Let_def split_beta fst_conv snd_conv k1 ds(1))
      (simp add: vs(1))
  ultimately show ?thesis
    using vs(2) ds(2) k1 by (intro exI [of _ vs] exI [of _ ds]) simp
qed

section \<open>Telemetry aggregator: the buffer\<close>

text \<open>
  The value that a read of the simulated register files returns, and an example: a pack of one
  device with two populated taps, on a chain whose register 3 and 4 hold the raw reading 27
  and whose other registers hold 0xFF.
\<close>

definition register_value :: "(u8 \<Rightarrow> u8 \<Rightarrow> u8) \<Rightarrow> u8 \<Rightarrow> u8 \<Rightarrow> int \<Rightarrow> int" where
  "register_value regs a r c =
     (if c = 1 then uint (regs (drop_bit 1 (push_bit 1 a)) r)
      else uint (regs (drop_bit 1 (push_bit 1 a)) r) * 256 +
           uint (regs (drop_bit 1 (push_bit 1 a)) (r + 1)))"

definition example_regs :: "u8 \<Rightarrow> u8 \<Rightarrow> u8" where
  "example_regs d r = (if r = 3 then 0 else if r = 4 then 27 else 0xFF)"

definition example_pack :: "'b \<Rightarrow> 'b driver" where
  "example_pack b =
     (bq_init_state b)
       \<lparr>devices_used := 1,
        cells_per_device := (\<lambda>i. if i = 1 then 2 else 0),
        cells := (\<lambda>k. if k = 0 then \<lparr>chip = 1, index = 3\<rparr> else \<lparr>chip = 1, index = 5\<rparr>),
        total_cell_count := 2\<rparr>"

lemma reads_register_bus:
  "reads (register_bus regs (\<lambda>f. f)) (\<lambda>b. True) (register_value regs)"
  unfolding reads_def
proof (intro allI impI conjI)
  fix a r :: u8 and c :: int and s :: "'a driver"
  assume h: "True \<and> xfer_index s + 1 < MAX_XFER \<and> (c = 1 \<or> c = 2)"
  then have room: "xfer_index s + 1 < MAX_XFER" by simp
  from h have "c = 1 \<or> c = 2" by simp
  then show "fst (readRegister (register_bus regs (\<lambda>f. f)) a r c s) = register_value regs a r c"
  proof
    assume "c = 1"
    then show ?thesis
      using readRegister_register_bus_1 [OF room, of regs a r] by (simp add: register_value_def)
  next
    assume "c = 2"
    then show ?thesis
      using readRegister_register_bus_2 [OF room, of regs a r] by (simp add: register_value_def)
  qed
qed simp

lemma config_get_voltages_wait:
  "config (snd (get_voltages_wait spi tries s)) = config s"
proof (induction spi tries s rule: get_voltages_wait.induct)
  case (1 spi tries s)
  define temp where "temp = fst (readRegister spi 1 DEVICE_STATUS 1 (bq_prepare_spi_message s))"
  define s' where "s' = snd (readRegister spi 1 DEVICE_STATUS 1 (bq_prepare_spi_message s))"
  have r: "readRegister spi 1 DEVICE_STATUS 1 (bq_prepare_spi_message s) = (temp, s')"
    by (simp add: temp_def s'_def)
  have c': "config s' = config s"
    unfolding s'_def by (simp add: config_readRegister config_prepare)
  show ?case
  proof (cases "\<not> tries > 5 \<and> temp AND DRDY = 0")
    case True
    then have "get_voltages_wait spi tries s = get_voltages_wait spi (tries + 1) s'"
      by (subst get_voltages_wait.simps) (simp add: r)
    then show ?thesis
      using "1.IH" [OF r [symmetric]] True c' by simp
  next
    case False
    then have "snd (get_voltages_wait spi tries s) = s'"
      by (subst get_voltages_wait.simps) (auto simp: r)
    then show ?thesis
      using c' by simp
  qed
qed

lemma get_voltages_cases:
  "fst (get_voltages spi s) = 0 \<and> fst (snd (get_voltages spi s)) = [] \<or>
   (\<exists>s'. config s' = config s \<and> get_voltages spi s = get_voltages_emit spi s')"
proof -
  let ?s1 = "snd (writeRegister BROADCAST ADC_CONVERT AC_CONV (bq_prepare_spi_message s))"
  let ?s2 = "snd (spi_sync spi ?s1)"
  let ?w = "get_voltages_wait spi 0 ?s2"
  have c2: "config ?s2 = config s"
    by (simp add: config_spi_sync config_writeRegister config_prepare)
  define sw where "sw = snd ?w"
  have cw: "config sw = config s"
    by (simp add: sw_def config_get_voltages_wait c2)
  show ?thesis
  proof (cases "fst (spi_sync spi ?s1) \<noteq> 0")
    case True
    then show ?thesis by (simp add: get_voltages_start Let_def)
  next
    case False
    show ?thesis
    proof (cases "fst ?w")
      case None
      then have w: "?w = (None, sw)" by (simp add: prod_eq_iff sw_def)
      have "get_voltages spi s = (0, [], sw)"
        using False by (simp add: get_voltages_start Let_def w)
      then show ?thesis by simp
    next
      case (Some temp)
      then have w: "?w = (Some temp, sw)" by (simp add: prod_eq_iff sw_def)
      have "get_voltages spi s = get_voltages_emit spi sw"
        using False by (simp add: get_voltages_start Let_def w)
      then show ?thesis
        using cw by blast
    qed
  qed
qed

text \<open>
  C8. Whenever \<^verbatim>\<open>get_voltages\<close> returns a length other than 0, the bytes it has stored are the
  cell count, one byte per cell, the device count and eight bytes per device, followed by one
  last byte that is the CRC-8 of all the bytes before it; the returned length counts the CRC
  byte.
\<close>

theorem get_voltages_trailing_crc:
  assumes "fst (get_voltages spi s) \<noteq> 0"
  shows "fst (snd (get_voltages spi s)) \<noteq> [] \<and>
         last (fst (snd (get_voltages spi s))) =
           crc8 crc8_table (butlast (fst (snd (get_voltages spi s)))) 0 \<and>
         fst (get_voltages spi s) = int (length (fst (snd (get_voltages spi s)))) \<and>
         (\<exists>vs ds. length vs = nat (total_cell_count s) \<and>
                  length ds = 8 * nat (devices_used s) \<and>
                  butlast (fst (snd (get_voltages spi s))) =
                    [word_of_int (total_cell_count s)] @ vs @
                    [word_of_int (devices_used s)] @ ds)"
proof -
  from get_voltages_cases [of spi s] assms
  obtain s' where s': "config s' = config s" "get_voltages spi s = get_voltages_emit spi s'"
    by auto
  then have k: "total_cell_count s' = total_cell_count s" "devices_used s' = devices_used s"
    by (simp_all add: config_def)
  from get_voltages_emit_shape [of s' spi]
  obtain vs ds where sh: "length vs = nat (total_cell_count s')"
      "length ds = 8 * nat (devices_used s')"
      "fst (snd (get_voltages_emit spi s')) =
       ([word_of_int (total_cell_count s')] @ vs @ [word_of_int (devices_used s')] @ ds) @
       [crc8 crc8_table
          ([word_of_int (total_cell_count s')] @ vs @ [word_of_int (devices_used s')] @ ds) 0]"
      "fst (get_voltages_emit spi s') = 2 + int (length vs) + int (length ds) + 1"
    by blast
  let ?q = "[word_of_int (total_cell_count s)] @ vs @ [word_of_int (devices_used s)] @ ds"
  have p: "fst (snd (get_voltages spi s)) = ?q @ [crc8 crc8_table ?q 0]"
    using sh(3) by (simp add: s'(2) k)
  have n: "fst (get_voltages spi s) = 2 + int (length vs) + int (length ds) + 1"
    using sh(4) by (simp add: s'(2))
  have "butlast (fst (snd (get_voltages spi s))) = ?q"
    unfolding p by (rule butlast_snoc)
  moreover have "last (fst (snd (get_voltages spi s))) = crc8 crc8_table ?q 0"
    unfolding p by (rule last_snoc)
  moreover have "fst (snd (get_voltages spi s)) \<noteq> []"
    unfolding p by simp
  moreover have "fst (get_voltages spi s) = int (length (fst (snd (get_voltages spi s))))"
    unfolding p n by simp
  ultimately show ?thesis
    using sh(1,2) k by (metis (no_types, lifting))
qed

text \<open>C's division truncates towards zero; on these operands it is the following.\<close>

lemma sdiv_nonneg: "0 \<le> a \<Longrightarrow> 0 < b \<Longrightarrow> a sdiv b = a div b" for a b :: int
  by (simp add: signed_divide_int_def sgn_if)

lemma sdiv_neg: "a < 0 \<Longrightarrow> 0 < b \<Longrightarrow> a sdiv b = - ((- a) div b)" for a b :: int
  by (simp add: signed_divide_int_def sgn_if)

lemma upt_nat_2: "[0 ..< nat 2] = [0, 1]"
  by (simp add: upt_conv_Cons)

lemma example_rv:
  "register_value example_regs 1 3 2 = 27"
  "register_value example_regs 1 5 2 = 65535"
  "register_value example_regs 1 TEMPERATURE1 2 = 65535"
  "register_value example_regs 1 TEMPERATURE2 2 = 65535"
  "register_value example_regs 1 DEVICE_STATUS 1 = 255"
  "register_value example_regs 1 FAULT_STATUS 1 = 255"
  "register_value example_regs 1 ALERT_STATUS 1 = 255"
  "register_value example_regs 1 CUV_FAULT 1 = 255"
  "register_value example_regs 1 COV_FAULT 1 = 255"
  by (simp_all add: register_value_def example_regs_def TEMPERATURE1_def TEMPERATURE2_def
        DEVICE_STATUS_def FAULT_STATUS_def ALERT_STATUS_def CUV_FAULT_def COV_FAULT_def)

lemma example_emit:
  assumes "config s = config (example_pack b)"
  shows "fst (snd (get_voltages_emit (register_bus example_regs (\<lambda>f. f)) s)) =
      [2, 0, 226, 1, 2, 17, 17, 255, 255, 255, 255, 255] @
      [crc8 crc8_table [2, 0, 226, 1, 2, 17, 17, 255, 255, 255, 255, 255] 0]"
    and "fst (get_voltages_emit (register_bus example_regs (\<lambda>f. f)) s) = 13"
proof -
  have k: "total_cell_count s = 2" "devices_used s = 1"
    "cells s = (\<lambda>k. if k = 0 then \<lparr>chip = 1, index = 3\<rparr> else \<lparr>chip = 1, index = 5\<rparr>)"
    "cells_per_device s = (\<lambda>i. if i = 1 then 2 else 0)"
    using assms by (simp_all add: config_def example_pack_def)
  have v: "map (voltage_bytes (cells s) (register_value example_regs)) [0 ..< nat 2] = [0, 226]"
    unfolding upt_nat_2 by (simp add: k voltage_bytes_def example_rv sdiv_nonneg)
  have d: "concat (map (device_bytes (cells_per_device s) (register_value example_regs)) [1 .. 1])
      = [2, 17, 17, 255, 255, 255, 255, 255]"
    by (simp add: k device_bytes_def example_rv sdiv_nonneg)
  note e = get_voltages_emit_reads [OF reads_register_bus, where s = s and regs1 = example_regs]
  show "fst (snd (get_voltages_emit (register_bus example_regs (\<lambda>f. f)) s)) =
      [2, 0, 226, 1, 2, 17, 17, 255, 255, 255, 255, 255] @
      [crc8 crc8_table [2, 0, 226, 1, 2, 17, 17, 255, 255, 255, 255, 255] 0]"
    unfolding e(1) [OF TrueI] k(1,2) v d by simp
  then show "fst (get_voltages_emit (register_bus example_regs (\<lambda>f. f)) s) = 13"
    unfolding e(2) [OF TrueI] by simp
qed

lemma spi_sync_register_bus:
  "fst (spi_sync (register_bus regs corrupt) s) = 0"
  by (simp add: spi_sync_def register_bus_def split_beta split: option.splits)

lemma example_run:
  "\<exists>s'. config s' = config (example_pack ()) \<and>
     get_voltages (register_bus example_regs (\<lambda>f. f)) (example_pack ()) =
     get_voltages_emit (register_bus example_regs (\<lambda>f. f)) s'"
proof -
  let ?B = "register_bus example_regs (\<lambda>f. f) :: unit spi_bus"
  let ?s1 = "snd (writeRegister BROADCAST ADC_CONVERT AC_CONV
               (bq_prepare_spi_message (example_pack ())))"
  let ?s2 = "snd (spi_sync ?B ?s1)"
  define s' where "s' = snd (readRegister ?B 1 DEVICE_STATUS 1 (bq_prepare_spi_message ?s2))"
  have "fst (readRegister ?B 1 DEVICE_STATUS 1 (bq_prepare_spi_message ?s2)) = 255"
    by (simp add: readRegister_register_bus_1 [OF prepare_room] example_regs_def DEVICE_STATUS_def)
  then have r: "readRegister ?B 1 DEVICE_STATUS 1 (bq_prepare_spi_message ?s2) = (255, s')"
    by (simp add: prod_eq_iff s'_def)
  have w: "get_voltages_wait ?B 0 ?s2 = (Some 255, s')"
    by (subst get_voltages_wait.simps) (simp add: r DRDY_def)
  have "config s' = config (example_pack ())"
    unfolding s'_def
    by (simp add: config_readRegister config_prepare config_spi_sync config_writeRegister)
  moreover have "get_voltages ?B (example_pack ()) = get_voltages_emit ?B s'"
    by (simp add: get_voltages_start Let_def spi_sync_register_bus w)
  ultimately show ?thesis by blast
qed

text \<open>The example pack on the example chain: 13 bytes, the last one the CRC-8 of the twelve before.\<close>

theorem get_voltages_trailing_crc_witness:
  "fst (get_voltages (register_bus example_regs (\<lambda>f. f)) (example_pack ())) = 13 \<and>
   last (fst (snd (get_voltages (register_bus example_regs (\<lambda>f. f)) (example_pack ())))) =
     crc8 crc8_table
       (butlast (fst (snd (get_voltages (register_bus example_regs (\<lambda>f. f)) (example_pack ())))))
       0"
proof -
  obtain s' where s': "config s' = config (example_pack ())"
     "get_voltages (register_bus example_regs (\<lambda>f. f)) (example_pack ()) =
      get_voltages_emit (register_bus example_regs (\<lambda>f. f)) s'"
    using example_run by blast
  have n: "fst (get_voltages (register_bus example_regs (\<lambda>f. f)) (example_pack ())) = 13"
    using example_emit(2) [OF s'(1)] by (simp add: s'(2))
  then have "fst (get_voltages (register_bus example_regs (\<lambda>f. f)) (example_pack ())) \<noteq> 0"
    by simp
  from get_voltages_trailing_crc [OF this] n show ?thesis
    by simp
qed


text \<open>
  C4, as the code has it. When the read of entry \<open>k\<close> of the cell table returns the raw
  reading \<open>raw\<close>, between 0 and 65535, the byte that the aggregator emits for it (at position
  \<open>k + 1\<close> of the buffer) is the quotient \<open>raw * 6250 div 327660\<close> of C's integer division,
  with no rounding, stored into a byte and so reduced modulo 256. The product fits a 32-bit
  \<^verbatim>\<open>int\<close>. Up to \<open>raw = 13420\<close> (about 5.10 V) the quotient is at most 255 and is the value of
  the byte; \<open>raw = 0\<close> gives the byte 0.
\<close>

theorem get_voltages_voltage_byte:
  assumes "reads spi I val" and "I (bus s)"
    and "0 \<le> k" and "k < total_cell_count s"
    and "raw = val (word_of_int (chip (cells s (nat k)))) (word_of_int (index (cells s (nat k)))) 2"
    and "0 \<le> raw" and "raw \<le> 65535"
  shows "fst (snd (get_voltages_emit spi s)) ! (nat k + 1) = word_of_int (raw * 6250 div 327660) \<and>
         raw * 6250 < 2 ^ 31 \<and>
         (raw \<le> 13420 \<longrightarrow>
            uint (fst (snd (get_voltages_emit spi s)) ! (nat k + 1)) = raw * 6250 div 327660 \<and>
            raw * 6250 div 327660 \<le> 255) \<and>
         (raw = 0 \<longrightarrow> fst (snd (get_voltages_emit spi s)) ! (nat k + 1) = 0)"
proof -
  let ?vs = "map (voltage_bytes (cells s) val) [0 ..< nat (total_cell_count s)]"
  have kn: "nat k < nat (total_cell_count s)"
    using assms(3,4) by simp
  have "fst (snd (get_voltages_emit spi s)) ! (nat k + 1) = ?vs ! nat k"
    unfolding get_voltages_emit_reads(1) [OF assms(1,2)] using kn
    by (simp add: nth_append)
  also have "\<dots> = voltage_bytes (cells s) val (nat k)"
    using kn by simp
  also have "\<dots> = word_of_int (raw * 6250 div 327660)"
    using assms(6) by (simp add: voltage_bytes_def assms(5) [symmetric] sdiv_nonneg)
  finally have b: "fst (snd (get_voltages_emit spi s)) ! (nat k + 1)
      = word_of_int (raw * 6250 div 327660)" .
  have ov: "raw * 6250 < 2 ^ 31"
    using assms(7) by simp
  have small: "raw * 6250 div 327660 \<le> 255" "0 \<le> raw * 6250 div 327660" if "raw \<le> 13420"
    using that assms(6) by (simp_all add: pos_imp_zdiv_nonneg_iff)
  have "uint (word_of_int (raw * 6250 div 327660) :: u8) = raw * 6250 div 327660"
    if "raw \<le> 13420"
    using small [OF that] by (simp add: uint_word_of_int take_bit_int_eq_self)
  then show ?thesis
    using b ov small by simp
qed


text \<open>The first cell of the example pack reads 27 and is emitted as 0.\<close>

theorem get_voltages_voltage_byte_witness:
  "fst (snd (get_voltages_emit (register_bus example_regs (\<lambda>f. f)) (example_pack ()))) ! 1 = 0 \<and>
   (27 :: int) * 6250 < 2 ^ 31 \<and>
   uint (fst (snd (get_voltages_emit (register_bus example_regs (\<lambda>f. f)) (example_pack ()))) ! 1)
     = 27 * 6250 div 327660"
proof -
  have c: "cells (example_pack ()) 0 = \<lparr>chip = 1, index = 3\<rparr>"
    "(0 :: int) < total_cell_count (example_pack ())"
    by (simp_all add: example_pack_def)
  have r: "27 = register_value example_regs
      (word_of_int (chip (cells (example_pack ()) (nat 0))))
      (word_of_int (index (cells (example_pack ()) (nat 0)))) 2"
    by (simp add: c(1) example_rv)
  show ?thesis
    using get_voltages_voltage_byte [OF reads_register_bus TrueI order_refl c(2) r]
    by simp
qed

text \<open>
  The emitted byte is not the rounded quotient: the reading 27 gives the byte 0 where rounding
  gives 1, and the reading 65535 gives the byte 226 where rounding gives 1250, which is no byte.
\<close>

theorem get_voltages_voltage_round_counterexample:
  "register_value example_regs 1 3 2 = 27 \<and>
   uint (fst (snd (get_voltages_emit (register_bus example_regs (\<lambda>f. f)) (example_pack ()))) ! 1)
     = 0 \<and>
   round (27 * 6250 / 327660 :: real) = 1 \<and>
   register_value example_regs 1 5 2 = 65535 \<and>
   uint (fst (snd (get_voltages_emit (register_bus example_regs (\<lambda>f. f)) (example_pack ()))) ! 2)
     = 226 \<and>
   round (65535 * 6250 / 327660 :: real) = 1250"
  by (simp add: example_emit(1) [OF refl] example_rv round_def)

section \<open>Read failures in the emission loops\<close>

text \<open>
  The read that the per-cell loop makes for entry \<open>k\<close> of the cell table, on a fresh batch, and
  the state \<open>cells_read spi k s\<close> in which it is made: the state after the reads of the entries
  before \<open>k\<close>.
\<close>

definition get_voltages_cell_read :: "'b spi_bus \<Rightarrow> nat \<Rightarrow> 'b driver \<Rightarrow> int \<times> 'b driver" where
  "get_voltages_cell_read spi k s =
     readRegister spi (word_of_int (chip (cells s k))) (word_of_int (index (cells s k))) 2
       (bq_prepare_spi_message s)"

primrec cells_read :: "'b spi_bus \<Rightarrow> nat \<Rightarrow> 'b driver \<Rightarrow> 'b driver" where
  "cells_read spi 0 s = s"
| "cells_read spi (Suc k) s = snd (get_voltages_cell_read spi k (cells_read spi k s))"

lemma config_cells_read: "config (cells_read spi k s) = config s"
  by (induction k) (simp_all add: get_voltages_cell_read_def config_readRegister config_prepare)

lemma get_voltages_cells_run:
  "0 \<le> i \<Longrightarrow> s = cells_read spi (nat i) s0 \<Longrightarrow>
   get_voltages_cells spi i p s =
     (p @ map (\<lambda>k. word_of_int
                  ((fst (get_voltages_cell_read spi k (cells_read spi k s0)) * 6250) sdiv 327660))
            [nat i ..< nat (total_cell_count s0)],
      cells_read spi (max (nat i) (nat (total_cell_count s0))) s0)"
proof (induction spi i p s rule: get_voltages_cells.induct)
  case (1 spi i p s)
  have c: "config s = config s0"
    using "1.prems"(2) by (simp add: config_cells_read)
  then have t: "total_cell_count s = total_cell_count s0" "cells s = cells s0"
    by (simp_all add: config_def)
  show ?case
  proof (cases "i < total_cell_count s")
    case False
    then have "get_voltages_cells spi i p s = (p, s)"
      by (subst get_voltages_cells.simps) simp
    moreover have "max (nat i) (nat (total_cell_count s0)) = nat i"
      using False t(1) by simp
    ultimately show ?thesis
      using False "1.prems" t(1) by simp
  next
    case True
    define temp where "temp = fst (get_voltages_cell_read spi (nat i) s)"
    define s' where "s' = snd (get_voltages_cell_read spi (nat i) s)"
    have r: "readRegister spi (word_of_int (chip (cells s (nat i))))
        (word_of_int (index (cells s (nat i)))) 2 (bq_prepare_spi_message s) = (temp, s')"
      by (simp add: temp_def s'_def get_voltages_cell_read_def)
    have n: "nat (i + 1) = Suc (nat i)"
      using "1.prems"(1) by (simp add: nat_add_distrib)
    have s'': "s' = cells_read spi (nat (i + 1)) s0"
      by (simp add: n s'_def "1.prems"(2))
    have i1: "0 \<le> i + 1" using "1.prems"(1) by simp
    let ?p' = "p @ [word_of_int ((temp * 6250) sdiv 327660)]"
    note ih = "1.IH" [OF True r [symmetric] i1 s'']
    have u: "[nat i ..< nat (total_cell_count s0)] =
        nat i # [nat (i + 1) ..< nat (total_cell_count s0)]"
      using True "1.prems"(1) t(1) by (simp add: upt_conv_Cons nat_add_distrib)
    have m: "max (nat (i + 1)) (nat (total_cell_count s0)) =
        max (nat i) (nat (total_cell_count s0))"
      using True "1.prems"(1) t(1) by simp
    have step: "get_voltages_cells spi i p s = get_voltages_cells spi (i + 1) ?p' s'"
      using True by (subst get_voltages_cells.simps) (simp add: r)
    have tmp: "temp = fst (get_voltages_cell_read spi (nat i) (cells_read spi (nat i) s0))"
      by (simp add: temp_def "1.prems"(2))
    show ?thesis
      unfolding step ih u m by (simp add: tmp)
  qed
qed


text \<open>
  A chain that fails after two batches: the first two batches that reach the bus are answered
  by devices whose registers all hold 0xFF, and from the third batch on the first bit of every
  received frame is inverted, so that every later read fails its CRC check.
\<close>

definition flaky_chain :: "nat spi_bus" where
  "flaky_chain m xs tx rx =
     (case register_bus (\<lambda>d r. 0xFF) (if m < 2 then (\<lambda>f. f) else flip_frame_bit 0) () xs tx rx of
        (st, rx', u) \<Rightarrow> (st, rx', Suc m))"

lemma get_voltages_emit_voltage_run:
  assumes "k < nat (total_cell_count s)"
  shows "fst (snd (get_voltages_emit spi s)) ! (k + 1) =
     word_of_int ((fst (get_voltages_cell_read spi k (cells_read spi k s)) * 6250) sdiv 327660)"
proof -
  let ?p0 = "[word_of_int (total_cell_count s)] :: u8 list"
  let ?f = "\<lambda>k. word_of_int
       ((fst (get_voltages_cell_read spi k (cells_read spi k s)) * 6250) sdiv 327660) :: u8"
  let ?s1 = "snd (get_voltages_cells spi 0 ?p0 s)"
  have c: "fst (get_voltages_cells spi 0 ?p0 s) = ?p0 @ map ?f [0 ..< nat (total_cell_count s)]"
    using get_voltages_cells_run [of 0 s spi s ?p0] by simp
  let ?p1 = "fst (get_voltages_cells spi 0 ?p0 s) @ [word_of_int (devices_used s)]"
  obtain ds where ds: "fst (get_voltages_devices spi 1 ?p1 ?s1) = ?p1 @ ds"
    using get_voltages_devices_shape [of spi 1 ?p1 ?s1] by blast
  have k1: "devices_used ?s1 = devices_used s"
    using get_voltages_cells_shape [of spi 0 ?p0 s] by (simp add: config_def)
  have "fst (snd (get_voltages_emit spi s)) =
      (?p0 @ map ?f [0 ..< nat (total_cell_count s)]) @
      ([word_of_int (devices_used s)] @ ds @
       [crc8 crc8_table (?p1 @ ds) 0])"
    by (simp only: get_voltages_emit_def Let_def split_beta fst_conv snd_conv k1 ds)
      (simp add: c)
  then show ?thesis
    using assms by (simp add: nth_append)
qed


lemma get_voltages_emit_length:
  "fst (get_voltages_emit spi s) =
     2 + int (nat (total_cell_count s)) + 8 * int (nat (devices_used s)) + 1"
proof -
  from get_voltages_emit_shape [of s spi]
  obtain vs ds :: "u8 list" where "length vs = nat (total_cell_count s)"
      "length ds = 8 * nat (devices_used s)"
      "fst (get_voltages_emit spi s) = 2 + int (length vs) + int (length ds) + 1"
    by (elim exE conjE)
  then show ?thesis by simp
qed

lemma get_voltages_length:
  "fst (get_voltages spi s) =
     (if fst (spi_sync spi (snd (writeRegister BROADCAST ADC_CONVERT AC_CONV
                                   (bq_prepare_spi_message s)))) \<noteq> 0 \<or>
         fst (get_voltages_wait spi 0
                (snd (spi_sync spi (snd (writeRegister BROADCAST ADC_CONVERT AC_CONV
                                           (bq_prepare_spi_message s)))))) = None
      then 0
      else 2 + int (nat (total_cell_count s)) + 8 * int (nat (devices_used s)) + 1)"
proof -
  let ?s1 = "snd (writeRegister BROADCAST ADC_CONVERT AC_CONV (bq_prepare_spi_message s))"
  let ?s2 = "snd (spi_sync spi ?s1)"
  let ?w = "get_voltages_wait spi 0 ?s2"
  have c2: "config ?s2 = config s"
    by (simp add: config_spi_sync config_writeRegister config_prepare)
  define sw where "sw = snd ?w"
  have cw: "config sw = config s"
    by (simp add: sw_def config_get_voltages_wait c2)
  then have k: "total_cell_count sw = total_cell_count s" "devices_used sw = devices_used s"
    by (simp_all add: config_def)
  show ?thesis
  proof (cases "fst (spi_sync spi ?s1) \<noteq> 0")
    case True
    then show ?thesis by (simp add: get_voltages_start Let_def)
  next
    case False
    show ?thesis
    proof (cases "fst ?w")
      case None
      then have w: "?w = (None, sw)" by (simp add: prod_eq_iff sw_def)
      have "get_voltages spi s = (0, [], sw)"
        using False by (simp add: get_voltages_start Let_def w)
      then show ?thesis using None by simp
    next
      case (Some temp)
      then have w: "?w = (Some temp, sw)" by (simp add: prod_eq_iff sw_def)
      have "get_voltages spi s = get_voltages_emit spi sw"
        using False by (simp add: get_voltages_start Let_def w)
      then show ?thesis
        using False Some by (simp add: get_voltages_emit_length k)
    qed
  qed
qed

text \<open>
  C10. The emission loops of \<^verbatim>\<open>get_voltages\<close> never test what \<^verbatim>\<open>readRegister\<close> returned. On any
  bus, whatever the reads return: the emission (cell count, voltages, device count, device
  bytes, CRC) has the full length \<open>2 + total_cell_count + 8 * devices_used + 1\<close>; the length
  that \<^verbatim>\<open>get_voltages\<close> returns is 0 only when the start of the conversion fails or the poll
  gives up, and is that full length otherwise; and the byte emitted for entry \<open>k\<close> of the cell
  table is the value returned by its read, negative or not, times 6250, divided by 327660 and
  truncated to a byte. On a chain on which every read of \<open>count\<close> bytes of register \<open>reg\<close>
  of \<open>address\<close> returns \<open>val address reg count\<close> (an error code as well as a reading), the
  buffer is made of these values, rescaled or truncated: \<open>val * 6250 / 327660\<close> for a voltage,
  \<open>(val - 2048) / 120\<close> for a temperature, \<open>val\<close> itself for a status byte, each stored
  into a byte, and closed by the CRC-8 of all of them.
\<close>

theorem get_voltages_unchecked_reads:
  "fst (get_voltages_emit spi s) =
     2 + int (nat (total_cell_count s)) + 8 * int (nat (devices_used s)) + 1 \<and>
   fst (get_voltages spi s) =
     (if fst (spi_sync spi (snd (writeRegister BROADCAST ADC_CONVERT AC_CONV
                                   (bq_prepare_spi_message s)))) \<noteq> 0 \<or>
         fst (get_voltages_wait spi 0
                (snd (spi_sync spi (snd (writeRegister BROADCAST ADC_CONVERT AC_CONV
                                           (bq_prepare_spi_message s)))))) = None
      then 0
      else 2 + int (nat (total_cell_count s)) + 8 * int (nat (devices_used s)) + 1) \<and>
   (\<forall>k < nat (total_cell_count s).
      fst (snd (get_voltages_emit spi s)) ! (k + 1) =
        word_of_int
          ((fst (get_voltages_cell_read spi k (cells_read spi k s)) * 6250) sdiv 327660)) \<and>
   (reads spi I val \<and> I (bus s) \<longrightarrow>
      (let q = [word_of_int (total_cell_count s)] @
               map (\<lambda>k. word_of_int
                      ((val (word_of_int (chip (cells s k))) (word_of_int (index (cells s k))) 2
                          * 6250) sdiv 327660))
                   [0 ..< nat (total_cell_count s)] @
               [word_of_int (devices_used s)] @
               concat (map (\<lambda>i. [word_of_int (cells_per_device s i),
                                   word_of_int ((val (word_of_int i) TEMPERATURE1 2 - 2048) sdiv 120),
                                   word_of_int ((val (word_of_int i) TEMPERATURE2 2 - 2048) sdiv 120),
                                   word_of_int (val (word_of_int i) DEVICE_STATUS 1),
                                   word_of_int (val (word_of_int i) FAULT_STATUS 1),
                                   word_of_int (val (word_of_int i) ALERT_STATUS 1),
                                   word_of_int (val (word_of_int i) CUV_FAULT 1),
                                   word_of_int (val (word_of_int i) COV_FAULT 1)])
                           [1 .. devices_used s])
       in fst (snd (get_voltages_emit spi s)) = q @ [crc8 crc8_table q 0]))"
proof -
  note a = get_voltages_emit_length [of spi s]
  note b = get_voltages_length [of spi s]
  have c: "\<forall>k < nat (total_cell_count s).
      fst (snd (get_voltages_emit spi s)) ! (k + 1) =
        word_of_int
          ((fst (get_voltages_cell_read spi k (cells_read spi k s)) * 6250) sdiv 327660)"
    using get_voltages_emit_voltage_run [of _ s spi] by blast
  have d: "fst (snd (get_voltages_emit spi s)) =
      ([word_of_int (total_cell_count s)] @
       map (voltage_bytes (cells s) val) [0 ..< nat (total_cell_count s)] @
       [word_of_int (devices_used s)] @
       concat (map (device_bytes (cells_per_device s) val) [1 .. devices_used s])) @
      [crc8 crc8_table
         ([word_of_int (total_cell_count s)] @
          map (voltage_bytes (cells s) val) [0 ..< nat (total_cell_count s)] @
          [word_of_int (devices_used s)] @
          concat (map (device_bytes (cells_per_device s) val) [1 .. devices_used s])) 0]"
    if "reads spi I val" "I (bus s)"
    using that by (rule get_voltages_emit_reads(1))
  have vb: "voltage_bytes (cells s) val = (\<lambda>k. word_of_int
      ((val (word_of_int (chip (cells s k))) (word_of_int (index (cells s k))) 2 * 6250)
         sdiv 327660))"
    by (rule ext) (simp add: voltage_bytes_def)
  have db: "device_bytes (cells_per_device s) val =
      (\<lambda>i. [word_of_int (cells_per_device s i),
            word_of_int ((val (word_of_int i) TEMPERATURE1 2 - 2048) sdiv 120),
            word_of_int ((val (word_of_int i) TEMPERATURE2 2 - 2048) sdiv 120),
            word_of_int (val (word_of_int i) DEVICE_STATUS 1),
            word_of_int (val (word_of_int i) FAULT_STATUS 1),
            word_of_int (val (word_of_int i) ALERT_STATUS 1),
            word_of_int (val (word_of_int i) CUV_FAULT 1),
            word_of_int (val (word_of_int i) COV_FAULT 1)])"
    by (rule ext) (simp add: device_bytes_def)
  show ?thesis
    using a b c d unfolding vb db Let_def by blast
qed


text \<open>
  The failing chain: a read on it returns 0xFF during the first two batches and \<open>- EFAULT\<close>
  after them.
\<close>

lemma bus_reply_flaky_chain:
  "bus_reply flaky_chain address reg count s =
     (0, store_frame (rx_buff s) (byte_index s + 3)
           ((if bus s < 2 then (\<lambda>f. f) else flip_frame_bit 0)
              (register_frame (\<lambda>d r. 0xFF) (push_bit 1 address) reg (word_of_int count))),
      Suc (bus s))"
  by (simp add: bus_reply_def flaky_chain_def register_bus_def readRegister_queue_def Let_def)

lemma reads_flaky_chain: "reads flaky_chain (\<lambda>m. 2 \<le> m) (\<lambda>a r c. - EFAULT)"
  unfolding reads_def
proof (intro allI impI conjI)
  fix a r :: u8 and c :: int and s :: "nat driver"
  assume h: "2 \<le> bus s \<and> xfer_index s + 1 < MAX_XFER \<and> (c = 1 \<or> c = 2)"
  then have room: "xfer_index s + 1 < MAX_XFER" and c: "c = 1 \<or> c = 2" and m: "2 \<le> bus s"
    by simp_all
  define payload :: "u8 list" where "payload = (if c = 1 then [0xFF] else [0xFF, 0xFF])"
  define frame where
    "frame = payload @ [crc8 crc8_table ([push_bit 1 a, r, word_of_int c] @ payload) 0]"
  define rx where "rx = store_frame (rx_buff s) (byte_index s + 3) (flip_frame_bit 0 frame)"
  have w: "(word_of_int c :: u8) = 1 \<longleftrightarrow> c = 1"
    using c by auto
  have fr: "register_frame (\<lambda>d r. 0xFF) (push_bit 1 a) r (word_of_int c) = frame"
    by (simp add: register_frame_def frame_def payload_def Let_def w)
  have rep: "bus_reply flaky_chain a r c s = (0, rx, Suc (bus s))"
    unfolding bus_reply_flaky_chain fr rx_def using m by simp
  have len: "length payload = nat c"
    using c by (auto simp: payload_def)
  have fl: "nat c + 1 = length (flip_frame_bit 0 frame)"
    by (simp add: length_flip_frame_bit frame_def len)
  have bs: "bytes rx (byte_index s + 3) (nat c + 1) = flip_frame_bit 0 frame"
    unfolding rx_def by (rule bytes_store_frame [OF fl])
  have "0 < 8 * (nat c + 1)" by simp
  with readRegister_frame_cases [OF c room len rep frame_def] bs
  show "fst (readRegister flaky_chain a r c s) = - EFAULT"
    by blast
  show "2 \<le> bus (snd (readRegister flaky_chain a r c s))"
    unfolding readRegister_state [OF c room] using m by (simp add: rep)
qed

lemma flaky_chain_start:
  "fst (spi_sync flaky_chain s) = 0" "bus (snd (spi_sync flaky_chain s)) = Suc (bus s)"
  by (simp_all add: spi_sync_def flaky_chain_def register_bus_def split_beta split: option.splits)

lemma flaky_chain_poll:
  assumes "xfer_index s + 1 < MAX_XFER" and "bus s < 2"
  shows "fst (readRegister flaky_chain address reg 1 s) = 255"
    and "bus (snd (readRegister flaky_chain address reg 1 s)) = Suc (bus s)"
proof -
  let ?rx = "store_frame (rx_buff s) (byte_index s + 3)
               (register_frame (\<lambda>d r. 0xFF) (push_bit 1 address) reg 1)"
  have r: "bus_reply flaky_chain address reg 1 s = (0, ?rx, Suc (bus s))"
    using assms(2) by (simp add: bus_reply_flaky_chain)
  show "fst (readRegister flaky_chain address reg 1 s) = 255"
    using readRegister_unfold_1 [OF assms(1) r]
    by (simp add: register_frame_def store_frame_def Let_def)
  show "bus (snd (readRegister flaky_chain address reg 1 s)) = Suc (bus s)"
    using readRegister_state [of 1 s flaky_chain address reg] assms(1) by (simp add: r)
qed

text \<open>
  The example pack on the failing chain. The start of the conversion and the first poll are
  answered (data ready), which leaves the driver in the state \<open>flaky_polled\<close>; every read of
  the emission loops then fails with \<open>- EFAULT = - 14\<close>.
\<close>

definition flaky_polled :: "nat driver" where
  "flaky_polled =
     snd (readRegister flaky_chain 1 DEVICE_STATUS 1
            (bq_prepare_spi_message
               (snd (spi_sync flaky_chain
                       (snd (writeRegister BROADCAST ADC_CONVERT AC_CONV
                               (bq_prepare_spi_message (example_pack 0))))))))"

lemma flaky_run:
  "config flaky_polled = config (example_pack (0 :: nat))"
  "bus flaky_polled = 2"
  "get_voltages_wait flaky_chain 0
     (snd (spi_sync flaky_chain (snd (writeRegister BROADCAST ADC_CONVERT AC_CONV
          (bq_prepare_spi_message (example_pack 0)))))) = (Some 255, flaky_polled)"
  "get_voltages flaky_chain (example_pack 0) = get_voltages_emit flaky_chain flaky_polled"
proof -
  let ?s1 = "snd (writeRegister BROADCAST ADC_CONVERT AC_CONV
               (bq_prepare_spi_message (example_pack (0 :: nat))))"
  let ?s2 = "snd (spi_sync flaky_chain ?s1)"
  have b2: "bus (bq_prepare_spi_message ?s2) = 1"
    by (simp add: bus_prepare flaky_chain_start bus_writeRegister example_pack_def bq_init_state_def)
  then have lt: "bus (bq_prepare_spi_message ?s2) < 2" by simp
  have "fst (readRegister flaky_chain 1 DEVICE_STATUS 1 (bq_prepare_spi_message ?s2)) = 255"
    by (rule flaky_chain_poll(1) [OF prepare_room lt])
  then have r: "readRegister flaky_chain 1 DEVICE_STATUS 1 (bq_prepare_spi_message ?s2) =
      (255, flaky_polled)"
    by (simp add: prod_eq_iff flaky_polled_def)
  show w: "get_voltages_wait flaky_chain 0 ?s2 = (Some 255, flaky_polled)"
    by (subst get_voltages_wait.simps) (simp add: r DRDY_def)
  show "config flaky_polled = config (example_pack (0 :: nat))"
    unfolding flaky_polled_def
    by (simp add: config_readRegister config_prepare config_spi_sync config_writeRegister)
  show "bus flaky_polled = 2"
    unfolding flaky_polled_def using flaky_chain_poll(2) [OF prepare_room lt] b2 by simp
  show "get_voltages flaky_chain (example_pack 0) = get_voltages_emit flaky_chain flaky_polled"
    by (simp add: get_voltages_start Let_def flaky_chain_start w)
qed

text \<open>
  On that run \<^verbatim>\<open>get_voltages\<close> returns 13, the full length, and the buffer holds the error
  code as data: 0 for each voltage (\<open>- 14 * 6250 / 327660\<close>), 239 for each temperature
  (\<open>(- 14 - 2048) / 120 = - 17\<close>) and 242 for each status byte (\<open>- 14\<close>).
\<close>

theorem get_voltages_unchecked_reads_witness:
  "fst (get_voltages_cell_read flaky_chain 0 (cells_read flaky_chain 0 flaky_polled)) = - EFAULT \<and>
   fst (get_voltages flaky_chain (example_pack 0)) = 13 \<and>
   fst (snd (get_voltages flaky_chain (example_pack 0))) =
     [2, 0, 0, 1, 2, 239, 239, 242, 242, 242, 242, 242] @
     [crc8 crc8_table [2, 0, 0, 1, 2, 239, 239, 242, 242, 242, 242, 242] 0] \<and>
   fst (snd (get_voltages flaky_chain (example_pack 0))) ! 1 = 0"
proof -
  have k: "total_cell_count flaky_polled = 2" "devices_used flaky_polled = 1"
    "cells flaky_polled = (\<lambda>k. if k = 0 then \<lparr>chip = 1, index = 3\<rparr> else \<lparr>chip = 1, index = 5\<rparr>)"
    "cells_per_device flaky_polled = (\<lambda>i. if i = 1 then 2 else 0)"
    using flaky_run(1) by (simp_all add: config_def example_pack_def)
  have i: "2 \<le> bus flaky_polled"
    by (simp add: flaky_run(2))
  have i': "2 \<le> bus (bq_prepare_spi_message flaky_polled)"
    by (simp add: bus_prepare flaky_run(2))
  have r: "fst (get_voltages_cell_read flaky_chain 0 (cells_read flaky_chain 0 flaky_polled)) = - EFAULT"
    unfolding get_voltages_cell_read_def cells_read.simps
    by (subst reads_step(1) [OF reads_flaky_chain i' prepare_room]) simp_all
  have v: "(- EFAULT * 6250) sdiv 327660 = 0" "(- EFAULT - 2048) sdiv 120 = - 17"
    by (simp_all add: EFAULT_def sdiv_neg)
  have w: "(- 17 :: u8) = 239" "(- 14 :: u8) = 242"
    by simp_all
  note t = get_voltages_unchecked_reads
    [of flaky_chain flaky_polled "\<lambda>m. 2 \<le> m" "\<lambda>a r c. - EFAULT"]
  have n: "fst (get_voltages flaky_chain (example_pack 0)) = 13"
  proof -
    have kp: "total_cell_count (example_pack (0 :: nat)) = 2"
        "devices_used (example_pack (0 :: nat)) = 1"
      by (simp_all add: example_pack_def)
    from get_voltages_unchecked_reads
      [of flaky_chain "example_pack 0" "\<lambda>m. 2 \<le> m" "\<lambda>a r c. - EFAULT"]
    have "fst (get_voltages flaky_chain (example_pack 0)) =
     (if fst (spi_sync flaky_chain (snd (writeRegister BROADCAST ADC_CONVERT AC_CONV
                                   (bq_prepare_spi_message (example_pack 0))))) \<noteq> 0 \<or>
         fst (get_voltages_wait flaky_chain 0
                (snd (spi_sync flaky_chain (snd (writeRegister BROADCAST ADC_CONVERT AC_CONV
                                           (bq_prepare_spi_message (example_pack 0))))))) = None
      then 0
      else 2 + int (nat (total_cell_count (example_pack (0 :: nat)))) +
           8 * int (nat (devices_used (example_pack (0 :: nat)))) + 1)"
      by blast
    then show ?thesis
      unfolding flaky_run(3) flaky_chain_start kp by simp
  qed
  have "reads flaky_chain (\<lambda>m. 2 \<le> m) (\<lambda>a r c. - EFAULT) \<and> 2 \<le> bus flaky_polled"
    using reads_flaky_chain i by simp
  with t have "fst (snd (get_voltages_emit flaky_chain flaky_polled)) =
     [2, 0, 0, 1, 2, 239, 239, 242, 242, 242, 242, 242] @
     [crc8 crc8_table [2, 0, 0, 1, 2, 239, 239, 242, 242, 242, 242, 242] 0]"
    unfolding k v Let_def upt_nat_2 by (simp add: EFAULT_def w)
  moreover have "0 < nat (total_cell_count flaky_polled)"
    by (simp add: k)
  with t have "fst (snd (get_voltages_emit flaky_chain flaky_polled)) ! (0 + 1) =
      word_of_int ((fst (get_voltages_cell_read flaky_chain 0
                           (cells_read flaky_chain 0 flaky_polled)) * 6250) sdiv 327660)"
    by blast
  ultimately show ?thesis
    using n r by (simp add: flaky_run(4) v)
qed

section \<open>The census of the cell taps\<close>

text \<open>
  The registers of the six taps of a chip, the taps that a chain with the readings \<open>raw\<close>
  shows as populated (a reading above the threshold), for one chip from the register \<open>j\<close> on
  and for the chips \<open>i .. count\<close>, in the order in which the two passes of \<^verbatim>\<open>bq_probe\<close> visit them.
\<close>

definition VCELL2 :: int where "VCELL2 = 0x05"
definition VCELL3 :: int where "VCELL3 = 0x07"
definition VCELL4 :: int where "VCELL4 = 0x09"
definition VCELL5 :: int where "VCELL5 = 0x0B"

function census_regs :: "int \<Rightarrow> int list" where
  "census_regs j = (if j \<le> VCELL6 then j # census_regs (j + 2) else [])"
  by pat_completeness auto
termination
  by (relation "measure (\<lambda>j. nat (VCELL6 + 2 - j))") auto

declare census_regs.simps [simp del]

definition populated :: "(u8 \<Rightarrow> u8 \<Rightarrow> int \<Rightarrow> int) \<Rightarrow> int \<Rightarrow> int \<Rightarrow> bool" where
  "populated raw i j = (raw (word_of_int i) (word_of_int j) 2 > CELL_MISSING_THRESHOLD)"

definition chip_taps :: "(u8 \<Rightarrow> u8 \<Rightarrow> int \<Rightarrow> int) \<Rightarrow> int \<Rightarrow> int \<Rightarrow> cell list" where
  "chip_taps raw i j =
     map (\<lambda>j. \<lparr>chip = i, index = j\<rparr>) (filter (populated raw i) (census_regs j))"

definition pack_taps :: "(u8 \<Rightarrow> u8 \<Rightarrow> int \<Rightarrow> int) \<Rightarrow> int \<Rightarrow> int \<Rightarrow> cell list" where
  "pack_taps raw i count = concat (map (\<lambda>i. chip_taps raw i VCELL1) [i .. count])"

lemma census_regs_VCELL1: "census_regs VCELL1 = [VCELL1, VCELL2, VCELL3, VCELL4, VCELL5, VCELL6]"
  by (simp add: census_regs.simps VCELL1_def VCELL2_def VCELL3_def VCELL4_def VCELL5_def VCELL6_def)

lemma chip_taps_step:
  "j \<le> VCELL6 \<Longrightarrow> populated raw i j \<Longrightarrow>
     chip_taps raw i j = \<lparr>chip = i, index = j\<rparr> # chip_taps raw i (j + 2)"
  "j \<le> VCELL6 \<Longrightarrow> \<not> populated raw i j \<Longrightarrow> chip_taps raw i j = chip_taps raw i (j + 2)"
  "\<not> j \<le> VCELL6 \<Longrightarrow> chip_taps raw i j = []"
  by (simp_all add: chip_taps_def census_regs.simps [of j])

lemma pack_taps_step:
  "i < count + 1 \<Longrightarrow> pack_taps raw i count = chip_taps raw i VCELL1 @ pack_taps raw (i + 1) count"
  "\<not> i < count + 1 \<Longrightarrow> pack_taps raw i count = []"
  by (simp_all add: pack_taps_def upto_rec1)

text \<open>
  The two passes on a chain that answers every read with its reading: the first counts the
  populated taps and leaves the table alone, the second stores them from \<^verbatim>\<open>cell_index\<close> on.
\<close>

lemma bq_probe_count_chip_reads:
  "reads spi I raw \<Longrightarrow> I (bus s) \<Longrightarrow>
     fst (bq_probe_count_chip spi i j c s) = c + int (length (chip_taps raw i j)) \<and>
     I (bus (snd (bq_probe_count_chip spi i j c s))) \<and>
     total_cell_count (snd (bq_probe_count_chip spi i j c s)) =
       total_cell_count s + int (length (chip_taps raw i j)) \<and>
     cells (snd (bq_probe_count_chip spi i j c s)) = cells s"
proof (induction spi i j c s rule: bq_probe_count_chip.induct)
  case (1 spi i j c s)
  define s' where
    "s' = snd (readRegister spi (word_of_int i) (word_of_int j) 2 (bq_prepare_spi_message s))"
  note f = reads_fresh [OF "1.prems"(1,2), of 2 "word_of_int i" "word_of_int j", folded s'_def]
  have r: "readRegister spi (word_of_int i) (word_of_int j) 2 (bq_prepare_spi_message s) =
      (raw (word_of_int i) (word_of_int j) 2, s')"
    using f(1) by simp
  have i': "I (bus s')" using f(2) by simp
  have c': "total_cell_count s' = total_cell_count s" "cells s' = cells s"
    using f(4) by (simp_all add: config_def)
  show ?case
  proof (cases "j \<le> VCELL6")
    case False
    then show ?thesis
      using "1.prems"(2)
      by (subst (1 2 3 4) bq_probe_count_chip.simps) (simp add: chip_taps_step(3))
  next
    case True
    show ?thesis
    proof (cases "populated raw i j")
      case p: True
      then have gt: "CELL_MISSING_THRESHOLD < raw (word_of_int i) (word_of_int j) 2"
        by (simp add: populated_def)
      let ?s = "s'\<lparr>total_cell_count := total_cell_count s' + 1\<rparr>"
      have step: "bq_probe_count_chip spi i j c s = bq_probe_count_chip spi i (j + 2) (c + 1) ?s"
        using True gt by (subst bq_probe_count_chip.simps) (simp add: r)
      have "I (bus ?s)" using i' by simp
      from "1.IH"(1) [OF True r [symmetric] gt "1.prems"(1) this]
      show ?thesis
        unfolding step chip_taps_step(1) [OF True p] by (simp add: c')
    next
      case p: False
      then have gt: "\<not> CELL_MISSING_THRESHOLD < raw (word_of_int i) (word_of_int j) 2"
        by (simp add: populated_def)
      have step: "bq_probe_count_chip spi i j c s = bq_probe_count_chip spi i (j + 2) c s'"
        using True gt by (subst bq_probe_count_chip.simps) (simp add: r)
      from "1.IH"(2) [OF True r [symmetric] gt "1.prems"(1) i']
      show ?thesis
        unfolding step chip_taps_step(2) [OF True p] by (simp add: c')
    qed
  qed
qed

lemma bq_probe_count_reads:
  "reads spi I raw \<Longrightarrow> I (bus s) \<Longrightarrow>
     I (bus (bq_probe_count spi count i s)) \<and>
     total_cell_count (bq_probe_count spi count i s) =
       total_cell_count s + int (length (pack_taps raw i count)) \<and>
     cells (bq_probe_count spi count i s) = cells s"
proof (induction spi count i s rule: bq_probe_count.induct)
  case (1 spi count i s)
  show ?case
  proof (cases "i < count + 1")
    case False
    then show ?thesis
      using "1.prems"(2)
      by (subst (1 2 3) bq_probe_count.simps) (simp add: pack_taps_step(2))
  next
    case True
    define n where "n = fst (bq_probe_count_chip spi i VCELL1 0 s)"
    define s' where "s' = snd (bq_probe_count_chip spi i VCELL1 0 s)"
    have r: "bq_probe_count_chip spi i VCELL1 0 s = (n, s')"
      by (simp add: n_def s'_def)
    note c = bq_probe_count_chip_reads [OF "1.prems", of i VCELL1 0, folded s'_def n_def]
    let ?s = "if cells_per_device s' i \<noteq> n
              then s'\<lparr>cells_per_device := (cells_per_device s')(i := n)\<rparr> else s'"
    have step: "bq_probe_count spi count i s = bq_probe_count spi count (i + 1) ?s"
      using True by (subst bq_probe_count.simps) (simp add: r)
    have "I (bus ?s)" using c by simp
    from "1.IH" [OF True r [symmetric] "1.prems"(1) this]
    show ?thesis
      unfolding step pack_taps_step(1) [OF True] using c by simp
  qed
qed

lemma bq_probe_fill_chip_reads:
  "reads spi I raw \<Longrightarrow> I (bus s) \<Longrightarrow>
     fst (bq_probe_fill_chip spi i j k s) = k + length (chip_taps raw i j) \<and>
     I (bus (snd (bq_probe_fill_chip spi i j k s))) \<and>
     total_cell_count (snd (bq_probe_fill_chip spi i j k s)) = total_cell_count s \<and>
     cells (snd (bq_probe_fill_chip spi i j k s)) =
       (\<lambda>m. if k \<le> m \<and> m < k + length (chip_taps raw i j)
            then chip_taps raw i j ! (m - k) else cells s m)"
proof (induction spi i j k s rule: bq_probe_fill_chip.induct)
  case (1 spi i j k s)
  define s' where
    "s' = snd (readRegister spi (word_of_int i) (word_of_int j) 2 (bq_prepare_spi_message s))"
  note f = reads_fresh [OF "1.prems"(1,2), of 2 "word_of_int i" "word_of_int j", folded s'_def]
  have r: "readRegister spi (word_of_int i) (word_of_int j) 2 (bq_prepare_spi_message s) =
      (raw (word_of_int i) (word_of_int j) 2, s')"
    using f(1) by simp
  have i': "I (bus s')" using f(2) by simp
  have c': "total_cell_count s' = total_cell_count s" "cells s' = cells s"
    using f(4) by (simp_all add: config_def)
  show ?case
  proof (cases "j \<le> VCELL6")
    case False
    then show ?thesis
      using "1.prems"(2)
      by (subst (1 2 3 4) bq_probe_fill_chip.simps) (simp add: chip_taps_step(3) fun_eq_iff)
  next
    case True
    show ?thesis
    proof (cases "populated raw i j")
      case p: True
      then have gt: "CELL_MISSING_THRESHOLD < raw (word_of_int i) (word_of_int j) 2"
        by (simp add: populated_def)
      let ?s = "s'\<lparr>cells := (cells s')(k := \<lparr>chip = i, index = j\<rparr>)\<rparr>"
      have step: "bq_probe_fill_chip spi i j k s = bq_probe_fill_chip spi i (j + 2) (k + 1) ?s"
        using True gt by (subst bq_probe_fill_chip.simps) (simp add: r)
      have "I (bus ?s)" using i' by simp
      from "1.IH"(1) [OF True r [symmetric] gt "1.prems"(1) this]
      show ?thesis
        unfolding step chip_taps_step(1) [OF True p]
        by (auto simp: c' fun_eq_iff nth_Cons' Suc_diff_le)
    next
      case p: False
      then have gt: "\<not> CELL_MISSING_THRESHOLD < raw (word_of_int i) (word_of_int j) 2"
        by (simp add: populated_def)
      have step: "bq_probe_fill_chip spi i j k s = bq_probe_fill_chip spi i (j + 2) k s'"
        using True gt by (subst bq_probe_fill_chip.simps) (simp add: r)
      from "1.IH"(2) [OF True r [symmetric] gt "1.prems"(1) i']
      show ?thesis
        unfolding step chip_taps_step(2) [OF True p] c' by simp
    qed
  qed
qed

lemma bq_probe_fill_reads:
  "reads spi I raw \<Longrightarrow> I (bus s) \<Longrightarrow>
     fst (bq_probe_fill spi count i k s) = k + length (pack_taps raw i count) \<and>
     I (bus (snd (bq_probe_fill spi count i k s))) \<and>
     total_cell_count (snd (bq_probe_fill spi count i k s)) = total_cell_count s \<and>
     cells (snd (bq_probe_fill spi count i k s)) =
       (\<lambda>m. if k \<le> m \<and> m < k + length (pack_taps raw i count)
            then pack_taps raw i count ! (m - k) else cells s m)"
proof (induction spi count i k s rule: bq_probe_fill.induct)
  case (1 spi count i k s)
  show ?case
  proof (cases "i < count + 1")
    case False
    then show ?thesis
      using "1.prems"(2)
      by (subst (1 2 3 4) bq_probe_fill.simps) (simp add: pack_taps_step(2) fun_eq_iff)
  next
    case True
    define n where "n = fst (bq_probe_fill_chip spi i VCELL1 k s)"
    define s' where "s' = snd (bq_probe_fill_chip spi i VCELL1 k s)"
    have r: "bq_probe_fill_chip spi i VCELL1 k s = (n, s')"
      by (simp add: n_def s'_def)
    note c = bq_probe_fill_chip_reads [OF "1.prems", of i VCELL1 k, folded s'_def n_def]
    have step: "bq_probe_fill spi count i k s = bq_probe_fill spi count (i + 1) n s'"
      using True by (subst bq_probe_fill.simps) (simp add: r)
    have "I (bus s')" using c by simp
    from "1.IH" [OF True r [symmetric] "1.prems"(1) this]
    show ?thesis
      unfolding step pack_taps_step(1) [OF True] using c
      by (auto simp: fun_eq_iff nth_append)
  qed
qed


lemma pack_taps_filter:
  "concat (map (\<lambda>i. chip_taps raw i VCELL1) xs) =
     map (\<lambda>(i, j). \<lparr>chip = i, index = j\<rparr>)
       (filter (\<lambda>(i, j). CELL_MISSING_THRESHOLD < raw (word_of_int i) (word_of_int j) 2)
          (concat (map (\<lambda>i. map (Pair i) [VCELL1, VCELL2, VCELL3, VCELL4, VCELL5, VCELL6]) xs)))"
  by (induction xs)
    (simp_all add: chip_taps_def census_regs_VCELL1 populated_def filter_map o_def)

lemma sorted_wrt_taps:
  "sorted_wrt (<) xs \<Longrightarrow> sorted_wrt (<) ys \<Longrightarrow>
     sorted_wrt (\<lambda>p q. fst p < fst q \<or> fst p = fst q \<and> snd p < snd q)
       (concat (map (\<lambda>i. map (Pair i) ys) xs))"
  for xs ys :: "int list"
  by (induction xs) (auto simp: sorted_wrt_append sorted_wrt_map)

text \<open>
  C7. On a chain that answers the read of the tap register \<open>j\<close> of chip \<open>i\<close> with the reading
  \<open>raw i j\<close> (in both passes), and when the allocation of the table succeeds, the census of
  \<^verbatim>\<open>bq_probe\<close> over the chips \<open>1 .. count\<close> ends with: \<^verbatim>\<open>total_cell_count\<close> and the final
  \<^verbatim>\<open>cell_index\<close> both equal to the number of taps whose reading is strictly above 1000; the
  entries \<open>0 .. total_cell_count - 1\<close> of \<^verbatim>\<open>cells\<close> holding exactly these taps, and no entry
  past them written; a tap being in the table if and only if its chip is one of \<open>1 .. count\<close>,
  its register one of \<^verbatim>\<open>VCELL1 .. VCELL6\<close> and its reading above 1000; and the entries in
  strictly ascending order of (chip, register).
\<close>

theorem bq_probe_census_table:
  assumes "reads spi I raw" and "I (bus s)"
    and "taps = filter (\<lambda>(i, j). CELL_MISSING_THRESHOLD < raw (word_of_int i) (word_of_int j) 2)
                  (concat (map (\<lambda>i. map (Pair i) [VCELL1, VCELL2, VCELL3, VCELL4, VCELL5, VCELL6])
                             [1 .. count]))"
  shows "\<exists>s'. bq_probe_census spi True count s = Inr (length taps, s') \<and>
      total_cell_count s' = int (length taps) \<and>
      (\<forall>k < length taps. cells s' k = \<lparr>chip = fst (taps ! k), index = snd (taps ! k)\<rparr>) \<and>
      (\<forall>k \<ge> length taps. cells s' k = cells s k) \<and>
      sorted_wrt (\<lambda>p q. fst p < fst q \<or> fst p = fst q \<and> snd p < snd q) taps \<and>
      (\<forall>i j. (i, j) \<in> set taps \<longleftrightarrow>
         1 \<le> i \<and> i \<le> count \<and> j \<in> {VCELL1, VCELL2, VCELL3, VCELL4, VCELL5, VCELL6} \<and>
         CELL_MISSING_THRESHOLD < raw (word_of_int i) (word_of_int j) 2)"
proof -
  let ?s0 = "s\<lparr>total_cell_count := 0\<rparr>"
  let ?s1 = "bq_probe_count spi count 1 ?s0"
  define s' where "s' = snd (bq_probe_fill spi count 1 0 ?s1)"
  have pt: "pack_taps raw 1 count = map (\<lambda>(i, j). \<lparr>chip = i, index = j\<rparr>) taps"
    unfolding pack_taps_def assms(3) by (rule pack_taps_filter)
  then have len: "length (pack_taps raw 1 count) = length taps"
    by simp
  have "I (bus ?s0)" using assms(2) by simp
  note c = bq_probe_count_reads [OF assms(1) this, of count 1]
  from c have i1: "I (bus ?s1)" by simp
  note f = bq_probe_fill_reads [OF assms(1) i1, of count 1 0, folded s'_def]
  have run: "bq_probe_census spi True count s = Inr (length taps, s')"
    using f by (simp add: bq_probe_census_def Let_def prod_eq_iff s'_def len)
  have tcc: "total_cell_count s' = int (length taps)"
    using f c by (simp add: len)
  have cs: "cells s' = (\<lambda>m. if m < length taps
      then (map (\<lambda>(i, j). \<lparr>chip = i, index = j\<rparr>) taps) ! m else cells s m)"
  proof -
    have "cells ?s1 = cells ?s0" using c by blast
    then have c3: "cells ?s1 = cells s" by simp
    have f4: "cells s' = (\<lambda>m. if 0 \<le> m \<and> m < 0 + length (pack_taps raw 1 count)
         then pack_taps raw 1 count ! (m - 0) else cells ?s1 m)"
      using f by blast
    show ?thesis
      unfolding f4 c3 pt by (simp add: fun_eq_iff)
  qed
  have inb: "\<forall>k < length taps. cells s' k = \<lparr>chip = fst (taps ! k), index = snd (taps ! k)\<rparr>"
    by (simp add: cs split_beta)
  have out: "\<forall>k \<ge> length taps. cells s' k = cells s k"
    by (simp add: cs)
  have "sorted_wrt (<) [VCELL1, VCELL2, VCELL3, VCELL4, VCELL5, VCELL6]"
    by (simp add: VCELL1_def VCELL2_def VCELL3_def VCELL4_def VCELL5_def VCELL6_def)
  moreover have "sorted_wrt (<) [1 .. count]"
    by (simp add: sorted_wrt_upto)
  ultimately have srt: "sorted_wrt (\<lambda>p q. fst p < fst q \<or> fst p = fst q \<and> snd p < snd q) taps"
    unfolding assms(3) by (intro sorted_wrt_filter sorted_wrt_taps)
  have mem: "\<forall>i j. (i, j) \<in> set taps \<longleftrightarrow>
         1 \<le> i \<and> i \<le> count \<and> j \<in> {VCELL1, VCELL2, VCELL3, VCELL4, VCELL5, VCELL6} \<and>
         CELL_MISSING_THRESHOLD < raw (word_of_int i) (word_of_int j) 2"
    unfolding assms(3) by auto
  from run tcc inb out srt mem show ?thesis
    by blast
qed

text \<open>
  Two chips of the example chain: tap 1 of each reads 27 and is left out, the five others read
  65535, so the table has ten entries, chip 1 before chip 2, and entry 10 is untouched.
\<close>

theorem bq_probe_census_table_witness:
  "\<exists>s'. bq_probe_census (register_bus example_regs (\<lambda>f. f)) True 2 (bq_init_state ()) =
          Inr (10, s') \<and>
        total_cell_count s' = 10 \<and>
        cells s' 0 = \<lparr>chip = 1, index = 5\<rparr> \<and>
        cells s' 4 = \<lparr>chip = 1, index = 13\<rparr> \<and>
        cells s' 5 = \<lparr>chip = 2, index = 5\<rparr> \<and>
        cells s' 9 = \<lparr>chip = 2, index = 13\<rparr> \<and>
        cells s' 10 = \<lparr>chip = 0, index = 0\<rparr>"
proof -
  define taps :: "(int \<times> int) list" where
    "taps = [(1, 5), (1, 7), (1, 9), (1, 11), (1, 13), (2, 5), (2, 7), (2, 9), (2, 11), (2, 13)]"
  have t: "taps = filter (\<lambda>(i, j). CELL_MISSING_THRESHOLD <
                            register_value example_regs (word_of_int i) (word_of_int j) 2)
                  (concat (map (\<lambda>i. map (Pair i) [VCELL1, VCELL2, VCELL3, VCELL4, VCELL5, VCELL6])
                             [1 .. 2]))"
  proof -
    have u: "[1 .. 2 :: int] = [1, 2]"
      by (simp add: upto_rec1)
    show ?thesis
      unfolding u
      by (simp add: taps_def register_value_def example_regs_def CELL_MISSING_THRESHOLD_def
            VCELL1_def VCELL2_def VCELL3_def VCELL4_def VCELL5_def VCELL6_def)
  qed
  have i: "(\<lambda>b. True) (bus (bq_init_state ()))"
    by simp
  from bq_probe_census_table [OF reads_register_bus i t]
  obtain s' where s': "bq_probe_census (register_bus example_regs (\<lambda>f. f)) True 2 (bq_init_state ()) =
          Inr (length taps, s')"
      "total_cell_count s' = int (length taps)"
      "\<forall>k < length taps. cells s' k = \<lparr>chip = fst (taps ! k), index = snd (taps ! k)\<rparr>"
      "\<forall>k \<ge> length taps. cells s' k = cells (bq_init_state ()) k"
    by blast
  have l: "length taps = 10"
    by (simp add: taps_def)
  have "cells s' 0 = \<lparr>chip = 1, index = 5\<rparr>" "cells s' 4 = \<lparr>chip = 1, index = 13\<rparr>"
    "cells s' 5 = \<lparr>chip = 2, index = 5\<rparr>" "cells s' 9 = \<lparr>chip = 2, index = 13\<rparr>"
    using s'(3) by (simp_all add: l) (simp_all add: taps_def)
  moreover have "cells s' 10 = \<lparr>chip = 0, index = 0\<rparr>"
    using s'(4) by (simp add: l bq_init_state_def)
  ultimately show ?thesis
    using s'(1,2) by (simp add: l)
qed

end
